theory Spec2Isabelle
  imports Complex_Main "HOL-Library.Multiset"
begin

section \<open>Data model\<close>

text \<open>
  A lattice point is the JavaScript object \<open>{x, y}\<close> with integer coordinates; it is
  modelled as the pair \<open>(x, y)\<close>. The source compares points either field by field or
  through the template string \<open>`${v.x},${v.y}`\<close>. On integer coordinates that string
  determines the pair and \<open>Number\<close> reads it back, so a string key is modelled by the pair
  it encodes, a \<open>Set\<close> of keys by the list of its members in insertion order.
\<close>

type_synonym point = "int \<times> int"

datatype orient = Lower | Upper

record triangle =
  vertices :: "point list"
  gridPos :: "int \<times> int \<times> orient"

datatype error = TypeError | Diverges

text \<open>The constant \<open>inductionOuterTriangle\<close> of constants.js.\<close>

definition inductionOuterTriangle :: "point list" where
  "inductionOuterTriangle = [(-2, -2), (2, -2), (-2, 2)]"

section \<open>Geometry primitives (geometry.js)\<close>

text \<open>
  \<open>gcd\<close>: \<open>x = |a|, y = |b|; while (y) [x, y] = [y, x % y]\<close>. On non-negative
  operands JavaScript's \<open>%\<close> is \<open>mod\<close>.
\<close>

function gcd_loop :: "int \<Rightarrow> int \<Rightarrow> int" where
  "gcd_loop a b = (if b \<noteq> 0 \<and> 0 \<le> a \<and> 0 < b then gcd_loop b (a mod b) else a)"
  by pat_completeness auto
termination
  by (relation "measure (\<lambda>(a, b). nat b)") (auto simp: pos_mod_bound)

declare gcd_loop.simps [simp del]

definition gcd_js :: "int \<Rightarrow> int \<Rightarrow> int" where
  "gcd_js a b = gcd_loop \<bar>a\<bar> \<bar>b\<bar>"

text \<open>
  \<open>polygonAreaValue\<close>: a missing argument (\<open>None\<close>) or fewer than three vertices give 0,
  otherwise half the shoelace sum. The value is a half-integer, kept as a rational.
\<close>

definition area2 :: "point list \<Rightarrow> int" where
  "area2 vs = (\<Sum>i\<leftarrow>[0..<length vs].
     fst (vs ! i) * snd (vs ! ((i + 1) mod length vs))
       - fst (vs ! ((i + 1) mod length vs)) * snd (vs ! i))"

definition polygonAreaValue :: "point list option \<Rightarrow> rat" where
  "polygonAreaValue v = (case v of None \<Rightarrow> 0
     | Some vs \<Rightarrow> if length vs < 3 then 0 else of_int (area2 vs) / 2)"

fun orientation :: "point \<Rightarrow> point \<Rightarrow> point \<Rightarrow> int" where
  "orientation (ax, ay) (bx, by) (cx, cy) = (bx - ax) * (cy - ay) - (by - ay) * (cx - ax)"

fun onSegment :: "point \<Rightarrow> point \<Rightarrow> point \<Rightarrow> bool" where
  "onSegment (ax, ay) (bx, by) (cx, cy) =
     (bx \<ge> min ax cx \<and> bx \<le> max ax cx \<and> by \<ge> min ay cy \<and> by \<le> max ay cy)"

definition segmentsIntersect :: "point \<Rightarrow> point \<Rightarrow> point \<Rightarrow> point \<Rightarrow> bool" where
  "segmentsIntersect p1 p2 p3 p4 =
     (let o1 = orientation p1 p2 p3;
          o2 = orientation p1 p2 p4;
          o3 = orientation p3 p4 p1;
          o4 = orientation p3 p4 p2
      in if o1 = 0 \<and> onSegment p1 p3 p2 then True
         else if o2 = 0 \<and> onSegment p1 p4 p2 then True
         else if o3 = 0 \<and> onSegment p3 p1 p4 then True
         else if o4 = 0 \<and> onSegment p3 p2 p4 then True
         else o1 * o2 < 0 \<and> o3 * o4 < 0)"

text \<open>
  \<open>isSimplePolygon\<close>. The two \<open>for\<close> loops leave with \<open>false\<close> at the first pair of
  edges that is not skipped and intersects, so they return \<open>true\<close> exactly when no pair
  of the ranges does. \<open>Math.abs(i - j) <= 1\<close> and \<open>i === 0 && j === n - 1\<close> are the
  two \<open>continue\<close> guards.
\<close>

definition edge_pair_skipped :: "nat \<Rightarrow> nat \<Rightarrow> nat \<Rightarrow> bool" where
  "edge_pair_skipped n i j = (\<bar>int i - int j\<bar> \<le> 1 \<or> (i = 0 \<and> int j = int n - 1))"

definition edges_cross :: "point list \<Rightarrow> nat \<Rightarrow> nat \<Rightarrow> bool" where
  "edges_cross vs i j =
     (let n = length vs
      in segmentsIntersect (vs ! i) (vs ! ((i + 1) mod n)) (vs ! j) (vs ! ((j + 1) mod n)))"

definition isSimplePolygon :: "point list option \<Rightarrow> bool" where
  "isSimplePolygon v = (case v of None \<Rightarrow> False
     | Some vs \<Rightarrow>
         if length vs < 3 then False
         else if card (set vs) \<noteq> length vs then False
         else if \<bar>polygonAreaValue (Some vs)\<bar> < 1 / 2 then False
         else \<not> list_ex (\<lambda>i. list_ex (\<lambda>j. \<not> edge_pair_skipped (length vs) i j \<and> edges_cross vs i j)
                                     [i + 1..<length vs])
                        [0..<length vs])"

text \<open>
  \<open>trianglesOnOppositeSides\<close>: the destructuring \<open>[a, b, c, d]\<close> happens only after
  the length was found to be 4.
\<close>

definition trianglesOnOppositeSides :: "point list option \<Rightarrow> bool" where
  "trianglesOnOppositeSides v = (case v of
       Some [a, b, c, d] \<Rightarrow>
         (let oB = orientation a c b; oD = orientation a c d
          in if oB = 0 \<or> oD = 0 then False else oB * oD < 0)
     | _ \<Rightarrow> False)"

fun isPointOnEdge :: "point \<Rightarrow> point \<Rightarrow> point \<Rightarrow> bool" where
  "isPointOnEdge (qx, qy) (sx, sy) (ex, ey) =
     (let cross = (qx - sx) * (ey - sy) - (qy - sy) * (ex - sx)
      in if cross \<noteq> 0 then False
         else qx \<ge> min sx ex \<and> qx \<le> max sx ex \<and> qy \<ge> min sy ey \<and> qy \<le> max sy ey)"

text \<open>
  \<open>collectBoundaryPoints\<close>. \<open>add_key\<close> is \<open>Set.add\<close>: a key already present keeps its
  place. \<open>dx / steps\<close> is exact, \<open>steps\<close> being a common divisor. The comparator
  \<open>ax === bx ? ay - by : ax - bx\<close> is a total order on the distinct entries, so the result
  of \<open>sort\<close> is the one ascending arrangement, computed here by insertion.
\<close>

definition add_key :: "'a list \<Rightarrow> 'a \<Rightarrow> 'a list" where
  "add_key s k = (if k \<in> set s then s else s @ [k])"

definition edge_samples :: "point \<Rightarrow> point \<Rightarrow> point list" where
  "edge_samples s e =
     (let dx = fst e - fst s;
          dy = snd e - snd s;
          steps = gcd_js \<bar>dx\<bar> \<bar>dy\<bar>
      in if steps = 0 then [s]
         else let stepX = dx div steps; stepY = dy div steps
              in map (\<lambda>j. (fst s + stepX * j, snd s + stepY * j)) [0..steps])"

definition boundary_keys :: "point list \<Rightarrow> point list" where
  "boundary_keys vs =
     foldl (\<lambda>boundary i. foldl add_key boundary
                            (edge_samples (vs ! i) (vs ! ((i + 1) mod length vs))))
           [] [0..<length vs]"

definition compare_entries :: "point \<Rightarrow> point \<Rightarrow> int" where
  "compare_entries a b = (if fst a = fst b then snd a - snd b else fst a - fst b)"

fun insert_entry :: "point \<Rightarrow> point list \<Rightarrow> point list" where
  "insert_entry a [] = [a]"
| "insert_entry a (b # bs) =
     (if compare_entries a b \<le> 0 then a # b # bs else b # insert_entry a bs)"

definition sort_entries :: "point list \<Rightarrow> point list" where
  "sort_entries xs = foldr insert_entry xs []"

definition collectBoundaryPoints :: "point list \<Rightarrow> point list" where
  "collectBoundaryPoints vs = sort_entries (boundary_keys vs)"

section \<open>Decomposition and sequencing (induction.js)\<close>

text \<open>
  The two nested \<open>for\<close> loops of \<open>buildInductionTriangles\<close>: \<open>i\<close> runs over \<open>0 .. n - 1\<close>,
  \<open>j\<close> over \<open>0 .. n - i - 1\<close>; each cell pushes its lower triangle and, when
  \<open>i + j < n - 1\<close>, its upper one. \<open>lower_triangle\<close> and \<open>upper_triangle\<close> are the two
  object literals pushed.
\<close>

definition lower_triangle :: "point \<Rightarrow> int \<Rightarrow> int \<Rightarrow> triangle" where
  "lower_triangle v0 i j =
     \<lparr>vertices = [(fst v0 + i, snd v0 + j), (fst v0 + i + 1, snd v0 + j),
                  (fst v0 + i, snd v0 + j + 1)],
      gridPos = (i, j, Lower)\<rparr>"

definition upper_triangle :: "point \<Rightarrow> int \<Rightarrow> int \<Rightarrow> triangle" where
  "upper_triangle v0 i j =
     \<lparr>vertices = [(fst v0 + i + 1, snd v0 + j), (fst v0 + i + 1, snd v0 + j + 1),
                  (fst v0 + i, snd v0 + j + 1)],
      gridPos = (i, j, Upper)\<rparr>"

definition cell_triangles :: "point \<Rightarrow> int \<Rightarrow> int \<Rightarrow> int \<Rightarrow> triangle list" where
  "cell_triangles v0 n i j =
     lower_triangle v0 i j # (if i + j < n - 1 then [upper_triangle v0 i j] else [])"

definition allTriangles :: "point \<Rightarrow> int \<Rightarrow> triangle list" where
  "allTriangles v0 n =
     concat (map (\<lambda>i. concat (map (\<lambda>j. cell_triangles v0 n i j) [0..n - i - 1])) [0..n - 1])"

text \<open>
  \<open>getKey\<close> sorts the three vertex strings and joins them: two triangles get the same key
  exactly when they have the same vertices with the same multiplicities. The model sorts
  the vertex pairs instead of their strings, which is a canonical form of the same
  multiset.
\<close>

definition getKey :: "triangle \<Rightarrow> point list" where
  "getKey tri = sort_entries (vertices tri)"

definition sharesEdge :: "point list \<Rightarrow> point list \<Rightarrow> bool" where
  "sharesEdge v1 v2 = (length (filter (\<lambda>p. p \<in> set v2) v1) = 2)"

text \<open>
  One pass of the \<open>while\<close> body. \<open>scan_adjacent\<close> is the first \<open>for\<close> loop: the first
  triangle in generation order whose key is unused and which shares an edge with some
  placed triangle. \<open>scan_unused\<close> is the fallback loop.
\<close>

definition scan_adjacent :: "triangle list \<Rightarrow> point list list \<Rightarrow> point list list \<Rightarrow> triangle option" where
  "scan_adjacent allT ordered used =
     find (\<lambda>tri. getKey tri \<notin> set used \<and> list_ex (\<lambda>addedVerts. sharesEdge addedVerts (vertices tri)) ordered)
          allT"

definition scan_unused :: "triangle list \<Rightarrow> point list list \<Rightarrow> triangle option" where
  "scan_unused allT used = find (\<lambda>tri. getKey tri \<notin> set used) allT"

definition place_step :: "triangle list \<Rightarrow> point list list \<times> point list list \<Rightarrow> point list list \<times> point list list" where
  "place_step allT st =
     (case scan_adjacent allT (fst st) (snd st) of
        Some tri \<Rightarrow> (fst st @ [vertices tri], add_key (snd st) (getKey tri))
      | None \<Rightarrow>
         (case scan_unused allT (snd st) of
            Some tri \<Rightarrow> (fst st @ [vertices tri], add_key (snd st) (getKey tri))
          | None \<Rightarrow> st))"

partial_function (option) place_loop :: "triangle list \<Rightarrow> point list list \<times> point list list \<Rightarrow> point list list option" where
  "place_loop allT st =
     (if length (fst st) < length allT then place_loop allT (place_step allT st)
      else Some (fst st))"

declare place_loop.simps [code]

definition place_start :: "triangle list \<Rightarrow> point list list \<times> point list list" where
  "place_start allT =
     (case find (\<lambda>t. gridPos t = (0, 0, Lower)) allT of
        Some startTri \<Rightarrow> ([vertices startTri], [getKey startTri])
      | None \<Rightarrow> ([], []))"

text \<open>
  \<open>buildInductionTriangles\<close> ends with \<open>state.inductionTriangles = ordered\<close>; the model
  returns that list. An outer triangle with fewer than two vertices makes the first two
  lines read a field of \<open>undefined\<close>; a loop that never ends is \<open>Diverges\<close>.
\<close>

definition buildInductionTriangles :: "point list \<Rightarrow> error + point list list" where
  "buildInductionTriangles outer =
     (case outer of
        v0 # v1 # _ \<Rightarrow>
          (let n = fst v1 - fst v0;
               allT = allTriangles v0 n
           in case place_loop allT (place_start allT) of
                None \<Rightarrow> Inl Diverges
              | Some ordered \<Rightarrow> Inr ordered)
      | _ \<Rightarrow> Inl TypeError)"

text \<open>
  \<open>state.inductionTriangles\<close> starts as \<open>[]\<close> (state.js) and holds the sequence once
  \<open>buildInductionTriangles\<close> has run on the constant outer triangle.
\<close>

definition cachedTriangles :: "point list list" where
  "cachedTriangles =
     (case buildInductionTriangles inductionOuterTriangle of Inr ordered \<Rightarrow> ordered | Inl _ \<Rightarrow> [])"

section \<open>Accumulated polygon and shared edge (induction.js)\<close>

definition pick_start :: "point \<Rightarrow> point \<Rightarrow> point" where
  "pick_start a b = (if fst a < fst b \<or> (fst a = fst b \<and> snd a < snd b) then a else b)"

definition next_point :: "point list \<Rightarrow> point \<Rightarrow> point" where
  "next_point points current =
     foldl (\<lambda>next p. if next = current \<or> orientation current next p < 0 then p else next)
           (points ! 0) points"

text \<open>
  The \<open>do ... while\<close> walk (\<open>hull\<close> is an infix operator of the library, so the
  array of that name is \<open>hull_so_far\<close>, and \<open>pushed\<close> after the \<open>push\<close>). The points are distinct objects with distinct coordinates, so
  \<open>===\<close> and \<open>!==\<close> on them are equality of coordinates.
\<close>

function hull_walk :: "point list \<Rightarrow> point \<Rightarrow> point list \<Rightarrow> point \<Rightarrow> point list" where
  "hull_walk points start hull_so_far current =
     (let pushed = hull_so_far @ [current];
          nxt = next_point points current
      in if nxt \<noteq> start \<and> length pushed < length points + 1
         then hull_walk points start pushed nxt
         else pushed)"
  by pat_completeness auto
termination
  by (relation "measure (\<lambda>(points, start, hull_so_far, current). length points + 1 - length hull_so_far)") auto

declare hull_walk.simps [simp del]

definition getAccumulatedPolygon :: "point list \<Rightarrow> point list list \<Rightarrow> int \<Rightarrow> point list" where
  "getAccumulatedPolygon outer tris stepIndex =
     (if stepIndex \<le> 0 then []
      else if stepIndex \<ge> int (length tris) then outer
      else let points = foldl add_key [] (concat (take (nat stepIndex) tris))
           in if length points < 3 then points
              else let start = foldl pick_start (hd points) (tl points)
                   in hull_walk points start [] start)"

text \<open>
  \<open>getSharedEdgeForStep\<close>. A new triangle with fewer than three vertices makes
  \<open>e1.x\<close> or \<open>e2.x\<close> a read on \<open>undefined\<close> inside the \<open>some\<close> callbacks (the
  accumulated polygon has at least two vertices there).
\<close>

definition hull_has_edge :: "point list \<Rightarrow> point \<Rightarrow> point \<Rightarrow> bool" where
  "hull_has_edge acc e1 e2 =
     list_ex (\<lambda>j. let a1 = acc ! j; a2 = acc ! ((j + 1) mod length acc)
                  in (a1 = e1 \<and> a2 = e2) \<or> (a1 = e2 \<and> a2 = e1))
             [0..<length acc]"

fun edge_loop :: "point list \<Rightarrow> point list \<Rightarrow> nat list \<Rightarrow> error + (point \<times> point) option" where
  "edge_loop newTri acc [] = Inr None"
| "edge_loop newTri acc (i # is) =
     (if length newTri \<le> i \<or> length newTri \<le> (i + 1) mod 3 then Inl TypeError
      else let e1 = newTri ! i; e2 = newTri ! ((i + 1) mod 3)
           in if e1 \<in> set acc \<and> e2 \<in> set acc \<and> hull_has_edge acc e1 e2
              then Inr (Some (e1, e2))
              else edge_loop newTri acc is)"

definition getSharedEdgeForStep :: "point list \<Rightarrow> point list list \<Rightarrow> int \<Rightarrow> error + (point \<times> point) option" where
  "getSharedEdgeForStep outer tris stepIndex =
     (if stepIndex \<le> 0 \<or> stepIndex \<ge> int (length tris) then Inr None
      else let newTri = tris ! nat stepIndex;
               accumulated = getAccumulatedPolygon outer tris stepIndex
           in if length accumulated < 2 then Inr None
              else edge_loop newTri accumulated [0, 1, 2])"

section \<open>Notions used to state the properties\<close>

text \<open>
  The state \<open>(ordered, used)\<close> of the placement loop after \<open>k\<close> passes of its body, and the
  test that every consecutive vertex triple of a polygon (wrapping) turns left or goes
  straight.
\<close>

fun place_state :: "triangle list \<Rightarrow> nat \<Rightarrow> point list list \<times> point list list" where
  "place_state allT 0 = place_start allT"
| "place_state allT (Suc k) = place_step allT (place_state allT k)"

definition convex_ccw :: "point list \<Rightarrow> bool" where
  "convex_ccw poly =
     list_all (\<lambda>i. 0 \<le> orientation (poly ! i) (poly ! ((i + 1) mod length poly))
                                    (poly ! ((i + 2) mod length poly)))
              [0..<length poly]"

text \<open>
  The simplicity contract in the specification's words, written without any function
  of the program.

  The orientation test is the sign of the cross product of the two vectors from a
  common point. Two edges \<open>(p1, p2)\<close> and \<open>(p3, p4)\<close> intersect if the orientations of
  \<open>(p1, p2, p3)\<close> and \<open>(p1, p2, p4)\<close> are of opposite sign and those of \<open>(p3, p4, p1)\<close> and
  \<open>(p3, p4, p2)\<close> are too, or if one of the four orientations is zero and its third
  point lies within the bounding box of the other segment.

  The signed area of a polygon is the sum of the signed areas of the triangles that
  its first vertex spans with each of the following edges, a triangle's signed area
  being half the cross product of its two side vectors.

  A polygon is simple when its vertices are pairwise distinct, its absolute signed
  area is at least one half, and no two edges intersect unless they are the same edge,
  neighbours in the list (they share an endpoint) or the first and the last edge (the
  wrap-around pair). Edge \<open>i\<close> runs from vertex \<open>i\<close> to vertex \<open>(i + 1) mod n\<close>.
\<close>

definition vector_from :: "point \<Rightarrow> point \<Rightarrow> int \<times> int" where
  "vector_from a b = (fst b - fst a, snd b - snd a)"

definition cross_product :: "int \<times> int \<Rightarrow> int \<times> int \<Rightarrow> int" where
  "cross_product u w = fst u * snd w - snd u * fst w"

definition turn_sign :: "point \<Rightarrow> point \<Rightarrow> point \<Rightarrow> int" where
  "turn_sign a b c = sgn (cross_product (vector_from a b) (vector_from a c))"

definition opposite_signs :: "int \<Rightarrow> int \<Rightarrow> bool" where
  "opposite_signs s t = ((s = 1 \<and> t = - 1) \<or> (s = - 1 \<and> t = 1))"

definition in_bounding_box :: "point \<Rightarrow> point \<Rightarrow> point \<Rightarrow> bool" where
  "in_bounding_box q a b =
     (fst q \<in> {min (fst a) (fst b)..max (fst a) (fst b)}
      \<and> snd q \<in> {min (snd a) (snd b)..max (snd a) (snd b)})"

definition edges_intersect :: "point \<Rightarrow> point \<Rightarrow> point \<Rightarrow> point \<Rightarrow> bool" where
  "edges_intersect p1 p2 p3 p4 =
     ((opposite_signs (turn_sign p1 p2 p3) (turn_sign p1 p2 p4)
         \<and> opposite_signs (turn_sign p3 p4 p1) (turn_sign p3 p4 p2))
      \<or> (turn_sign p1 p2 p3 = 0 \<and> in_bounding_box p3 p1 p2)
      \<or> (turn_sign p1 p2 p4 = 0 \<and> in_bounding_box p4 p1 p2)
      \<or> (turn_sign p3 p4 p1 = 0 \<and> in_bounding_box p1 p3 p4)
      \<or> (turn_sign p3 p4 p2 = 0 \<and> in_bounding_box p2 p3 p4))"

fun fan_cross :: "point \<Rightarrow> point list \<Rightarrow> int" where
  "fan_cross v (a # b # r) =
     cross_product (vector_from v a) (vector_from v b) + fan_cross v (b # r)"
| "fan_cross v r = 0"

definition signed_area :: "point list \<Rightarrow> rat" where
  "signed_area vs = (case vs of [] \<Rightarrow> 0 | v # r \<Rightarrow> of_int (fan_cross v r) / 2)"

definition non_adjacent :: "nat \<Rightarrow> nat \<Rightarrow> nat \<Rightarrow> bool" where
  "non_adjacent n i j =
     (i \<noteq> j \<and> i + 1 \<noteq> j \<and> j + 1 \<noteq> i \<and> \<not> (i = 0 \<and> j + 1 = n) \<and> \<not> (j = 0 \<and> i + 1 = n))"

definition simple_spec :: "point list \<Rightarrow> bool" where
  "simple_spec vs =
     (distinct vs \<and> 1 / 2 \<le> \<bar>signed_area vs\<bar>
      \<and> (\<forall>i<length vs. \<forall>j<length vs.
            non_adjacent (length vs) i j \<longrightarrow>
              \<not> edges_intersect (vs ! i) (vs ! ((i + 1) mod length vs))
                                 (vs ! j) (vs ! ((j + 1) mod length vs))))"

text \<open>
  What the intersection test decides: the two closed segments have a point of the plane
  in common. \<open>on_segment a b q\<close> says that the real point \<open>q\<close> lies on the closed
  segment from \<open>a\<close> to \<open>b\<close>.
\<close>

definition on_segment :: "point \<Rightarrow> point \<Rightarrow> real \<times> real \<Rightarrow> bool" where
  "on_segment a b q =
     (\<exists>t. 0 \<le> t \<and> t \<le> 1
        \<and> fst q = real_of_int (fst a) + t * (real_of_int (fst b) - real_of_int (fst a))
        \<and> snd q = real_of_int (snd a) + t * (real_of_int (snd b) - real_of_int (snd a)))"

definition segments_meet :: "point \<Rightarrow> point \<Rightarrow> point \<Rightarrow> point \<Rightarrow> bool" where
  "segments_meet p1 p2 p3 p4 = (\<exists>q. on_segment p1 p2 q \<and> on_segment p3 p4 q)"

text \<open>
  The order of the result of \<open>collectBoundaryPoints\<close>: by \<open>x\<close>, then by \<open>y\<close>.
\<close>

definition entry_before :: "point \<Rightarrow> point \<Rightarrow> bool" where
  "entry_before a b = (fst a < fst b \<or> (fst a = fst b \<and> snd a < snd b))"

section \<open>The sequence for the outer triangle of leg length 4\<close>

lemma build_n4:
  "buildInductionTriangles inductionOuterTriangle = Inr (map vertices (allTriangles (-2, -2) 4))"
  by code_simp

lemma length_all_n4: "length (allTriangles (-2, -2) 4) = 16"
  by code_simp

lemma cachedTriangles_n4: "cachedTriangles = map vertices (allTriangles (-2, -2) 4)"
  by (simp add: cachedTriangles_def build_n4)

lemma length_cached: "length cachedTriangles = 16"
  by (simp add: cachedTriangles_n4 length_all_n4)

lemma adjacency_n4:
  "\<forall>k\<in>set [1..<16].
     2 \<le> card (set (map vertices (allTriangles (-2, -2) 4) ! k)
               \<inter> \<Union> (set ` set (take k (map vertices (allTriangles (-2, -2) 4)))))"
  by code_simp

text \<open>
  C1: for the outer triangle of the program (right angle at \<open>(-2, -2)\<close>, leg length 4),
  \<open>buildInductionTriangles\<close> returns a sequence that is a permutation of the 16 vertex
  lists of the decomposition, and every triangle after the first has at least two of
  its vertices among the vertices of the triangles before it.
\<close>

theorem sequencer_n4_adjacent_permutation:
  "\<exists>ordered. buildInductionTriangles inductionOuterTriangle = Inr ordered
     \<and> mset ordered = mset (map vertices (allTriangles (-2, -2) 4))
     \<and> length ordered = 16
     \<and> (\<forall>k. 0 < k \<and> k < length ordered \<longrightarrow>
           2 \<le> card (set (ordered ! k) \<inter> \<Union> (set ` set (take k ordered))))"
proof (intro exI conjI allI impI)
  show "buildInductionTriangles inductionOuterTriangle
          = Inr (map vertices (allTriangles (-2, -2) 4))"
    by (rule build_n4)
  show "mset (map vertices (allTriangles (-2, -2) 4))
          = mset (map vertices (allTriangles (-2, -2) 4))"
    by simp
  show "length (map vertices (allTriangles (-2, -2) 4)) = 16"
    using length_all_n4 by simp
next
  fix k :: nat
  assume "0 < k \<and> k < length (map vertices (allTriangles (-2, -2) 4))"
  then have "k \<in> set [1..<16]"
    using length_all_n4 by simp
  then show "2 \<le> card (set (map vertices (allTriangles (-2, -2) 4) ! k)
      \<inter> \<Union> (set ` set (take k (map vertices (allTriangles (-2, -2) 4)))))"
    using adjacency_n4 by blast
qed

theorem sequencer_n4_adjacent_permutation_witness:
  "\<exists>ordered. buildInductionTriangles inductionOuterTriangle = Inr ordered
     \<and> (0::nat) < 5 \<and> 5 < length ordered
     \<and> 2 \<le> card (set (ordered ! 5) \<inter> \<Union> (set ` set (take 5 ordered)))"
proof -
  from sequencer_n4_adjacent_permutation obtain ordered
    where b: "buildInductionTriangles inductionOuterTriangle = Inr ordered"
      and l: "length ordered = 16"
      and a: "\<forall>k. 0 < k \<and> k < length ordered \<longrightarrow>
                 2 \<le> card (set (ordered ! k) \<inter> \<Union> (set ` set (take k ordered)))"
    by blast
  from a l have "2 \<le> card (set (ordered ! 5) \<inter> \<Union> (set ` set (take 5 ordered)))"
    by simp
  with b l show ?thesis by simp
qed

section \<open>The fallback of the placement loop\<close>

lemma place_loop_unfold:
  "length (fst st) < length allT \<Longrightarrow> place_loop allT st = place_loop allT (place_step allT st)"
  by (subst place_loop.simps) simp

lemma place_loop_exit:
  "\<not> length (fst st) < length allT \<Longrightarrow> place_loop allT st = Some (fst st)"
  by (subst place_loop.simps) simp

lemma place_loop_iterate:
  "(\<And>m. m < k \<Longrightarrow> length (fst (place_state allT m)) < length allT)
     \<Longrightarrow> place_loop allT (place_start allT) = place_loop allT (place_state allT k)"
proof (induction k)
  case 0
  show ?case by simp
next
  case (Suc k)
  have "place_loop allT (place_start allT) = place_loop allT (place_state allT k)"
    using Suc by simp
  also have "\<dots> = place_loop allT (place_step allT (place_state allT k))"
    using Suc.prems [of k] by (simp add: place_loop_unfold)
  finally show ?case by simp
qed

lemma passes_n4:
  "\<forall>k\<in>set [0..<15].
     length (fst (place_state (allTriangles (-2, -2) 4) k)) < length (allTriangles (-2, -2) 4)
     \<and> scan_adjacent (allTriangles (-2, -2) 4) (fst (place_state (allTriangles (-2, -2) 4) k))
          (snd (place_state (allTriangles (-2, -2) 4) k)) \<noteq> None
     \<and> (\<exists>tri\<in>set (allTriangles (-2, -2) 4).
           getKey tri \<notin> set (snd (place_state (allTriangles (-2, -2) 4) k))
           \<and> (\<exists>placed\<in>set (fst (place_state (allTriangles (-2, -2) 4) k)).
                 sharesEdge placed (vertices tri)))"
  by code_simp

lemma last_pass_n4:
  "length (fst (place_state (allTriangles (-2, -2) 4) 15)) = length (allTriangles (-2, -2) 4)"
  by code_simp

text \<open>
  C3: for leg length 4 the loop body runs 15 times. Before each of these passes the loop
  condition holds and the first scan finds a triangle (so \<open>added\<close> is true and the
  fallback scan is skipped): some triangle whose key is unused shares exactly two
  vertices with a placed triangle. After the 15th pass all 16 triangles are placed and
  the loop returns.
\<close>

theorem fallback_not_reached_n4:
  "(\<forall>k<15.
      length (fst (place_state (allTriangles (-2, -2) 4) k)) < length (allTriangles (-2, -2) 4)
      \<and> scan_adjacent (allTriangles (-2, -2) 4) (fst (place_state (allTriangles (-2, -2) 4) k))
           (snd (place_state (allTriangles (-2, -2) 4) k)) \<noteq> None
      \<and> (\<exists>tri\<in>set (allTriangles (-2, -2) 4).
            getKey tri \<notin> set (snd (place_state (allTriangles (-2, -2) 4) k))
            \<and> (\<exists>placed\<in>set (fst (place_state (allTriangles (-2, -2) 4) k)).
                  sharesEdge placed (vertices tri))))
   \<and> length (fst (place_state (allTriangles (-2, -2) 4) 15)) = length (allTriangles (-2, -2) 4)
   \<and> place_loop (allTriangles (-2, -2) 4) (place_start (allTriangles (-2, -2) 4))
       = Some (fst (place_state (allTriangles (-2, -2) 4) 15))"
proof (intro conjI allI impI)
  fix k :: nat
  assume "k < 15"
  then have k: "k \<in> set [0..<15]" by simp
  show "length (fst (place_state (allTriangles (-2, -2) 4) k)) < length (allTriangles (-2, -2) 4)"
    using passes_n4 k by blast
  show "scan_adjacent (allTriangles (-2, -2) 4) (fst (place_state (allTriangles (-2, -2) 4) k))
           (snd (place_state (allTriangles (-2, -2) 4) k)) \<noteq> None"
    using passes_n4 k by blast
  show "\<exists>tri\<in>set (allTriangles (-2, -2) 4).
            getKey tri \<notin> set (snd (place_state (allTriangles (-2, -2) 4) k))
            \<and> (\<exists>placed\<in>set (fst (place_state (allTriangles (-2, -2) 4) k)).
                  sharesEdge placed (vertices tri))"
    using passes_n4 k by blast
next
  show "length (fst (place_state (allTriangles (-2, -2) 4) 15)) = length (allTriangles (-2, -2) 4)"
    by (rule last_pass_n4)
next
  have "place_loop (allTriangles (-2, -2) 4) (place_start (allTriangles (-2, -2) 4))
          = place_loop (allTriangles (-2, -2) 4) (place_state (allTriangles (-2, -2) 4) 15)"
  proof (rule place_loop_iterate)
    fix m :: nat
    assume "m < 15"
    then have "m \<in> set [0..<15]" by simp
    then show "length (fst (place_state (allTriangles (-2, -2) 4) m))
                 < length (allTriangles (-2, -2) 4)"
      using passes_n4 by blast
  qed
  also have "\<dots> = Some (fst (place_state (allTriangles (-2, -2) 4) 15))"
    using last_pass_n4 by (simp add: place_loop_exit)
  finally show "place_loop (allTriangles (-2, -2) 4) (place_start (allTriangles (-2, -2) 4))
       = Some (fst (place_state (allTriangles (-2, -2) 4) 15))" .
qed

theorem fallback_not_reached_n4_witness:
  "(7::nat) < 15
   \<and> scan_adjacent (allTriangles (-2, -2) 4) (fst (place_state (allTriangles (-2, -2) 4) 7))
        (snd (place_state (allTriangles (-2, -2) 4) 7)) \<noteq> None"
  using fallback_not_reached_n4 by simp

section \<open>The accumulated polygon\<close>

text \<open>
  C4: \<open>getAccumulatedPolygon\<close> returns the empty list at step 0, and at every positive
  step that is at least the number of triangles it returns the outer triangle as it is;
  for the cached sequence (16 triangles) that is every step from 16 on, and the list
  returned is the constant's three vertices.
\<close>

theorem getAccumulatedPolygon_ends:
  "getAccumulatedPolygon outer tris 0 = []
   \<and> (0 < k \<and> int (length tris) \<le> k \<longrightarrow> getAccumulatedPolygon outer tris k = outer)
   \<and> (int (length cachedTriangles) \<le> k \<longrightarrow>
        getAccumulatedPolygon inductionOuterTriangle cachedTriangles k
          = [(-2, -2), (2, -2), (-2, 2)])"
  by (simp add: getAccumulatedPolygon_def length_cached inductionOuterTriangle_def)

theorem getAccumulatedPolygon_ends_witness:
  "(0::int) < 16 \<and> int (length cachedTriangles) \<le> 16
   \<and> getAccumulatedPolygon inductionOuterTriangle cachedTriangles 16 = inductionOuterTriangle
   \<and> getAccumulatedPolygon inductionOuterTriangle cachedTriangles 16 = [(-2, -2), (2, -2), (-2, 2)]"
  using getAccumulatedPolygon_ends [of inductionOuterTriangle cachedTriangles 16]
  by (simp add: length_cached inductionOuterTriangle_def)

lemma hulls_n4:
  "\<forall>k\<in>set [1..16].
     set (getAccumulatedPolygon inductionOuterTriangle cachedTriangles k)
       \<subseteq> \<Union> (set ` set (take (nat k) cachedTriangles))
     \<and> convex_ccw (getAccumulatedPolygon inductionOuterTriangle cachedTriangles k)
     \<and> distinct (getAccumulatedPolygon inductionOuterTriangle cachedTriangles k)"
  by code_simp

text \<open>
  C5: for the cached sequence and every step \<open>k\<close> from 1 to 16, each vertex of the
  accumulated polygon is a vertex of one of the first \<open>k\<close> triangles, every consecutive
  vertex triple (wrapping) has a non-negative orientation, and no vertex is listed
  twice.
\<close>

theorem getAccumulatedPolygon_convex_n4:
  "0 < k \<and> k \<le> int (length cachedTriangles) \<longrightarrow>
     set (getAccumulatedPolygon inductionOuterTriangle cachedTriangles k)
       \<subseteq> \<Union> (set ` set (take (nat k) cachedTriangles))
     \<and> convex_ccw (getAccumulatedPolygon inductionOuterTriangle cachedTriangles k)
     \<and> distinct (getAccumulatedPolygon inductionOuterTriangle cachedTriangles k)"
proof
  assume "0 < k \<and> k \<le> int (length cachedTriangles)"
  then have "k \<in> set [1..16]"
    by (simp add: length_cached)
  then show "set (getAccumulatedPolygon inductionOuterTriangle cachedTriangles k)
       \<subseteq> \<Union> (set ` set (take (nat k) cachedTriangles))
     \<and> convex_ccw (getAccumulatedPolygon inductionOuterTriangle cachedTriangles k)
     \<and> distinct (getAccumulatedPolygon inductionOuterTriangle cachedTriangles k)"
    using hulls_n4 by blast
qed

theorem getAccumulatedPolygon_convex_n4_witness:
  "(0::int) < 9 \<and> 9 \<le> int (length cachedTriangles)
   \<and> getAccumulatedPolygon inductionOuterTriangle cachedTriangles 9
        = [(-2, -2), (-1, -2), (0, -2), (0, -1), (-1, 1), (-2, 2)]
   \<and> convex_ccw (getAccumulatedPolygon inductionOuterTriangle cachedTriangles 9)"
proof -
  have v: "getAccumulatedPolygon inductionOuterTriangle cachedTriangles 9
        = [(-2, -2), (-1, -2), (0, -2), (0, -1), (-1, 1), (-2, 2)]"
    by code_simp
  have "(0::int) < 9 \<and> 9 \<le> int (length cachedTriangles)"
    by (simp add: length_cached)
  with getAccumulatedPolygon_convex_n4 [of 9] v show ?thesis by simp
qed

section \<open>The shared edge\<close>

text \<open>
  C6: in the cached sequence the triangle at index 0 is the lower triangle of cell
  (0,0) and the one at index 1 the upper triangle of that cell; at step 1
  \<open>getSharedEdgeForStep\<close> returns an edge, from \<open>(-2, -1)\<close> to \<open>(-1, -2)\<close>, whose
  endpoints are vertices of both triangles and which is an edge of the accumulated
  polygon of step 1 in one of the two directions.
\<close>

theorem getSharedEdgeForStep_first_upper:
  "cachedTriangles ! 0 = vertices (lower_triangle (-2, -2) 0 0)
   \<and> cachedTriangles ! 1 = vertices (upper_triangle (-2, -2) 0 0)
   \<and> getSharedEdgeForStep inductionOuterTriangle cachedTriangles 1
        = Inr (Some ((-2, -1), (-1, -2)))
   \<and> {(-2, -1), (-1, -2)} \<subseteq> set (cachedTriangles ! 0) \<inter> set (cachedTriangles ! 1)
   \<and> hull_has_edge (getAccumulatedPolygon inductionOuterTriangle cachedTriangles 1)
        (-2, -1) (-1, -2)"
  by code_simp

section \<open>The polygon validator\<close>

text \<open>
  C8: on a list of four vertices \<open>a, b, c, d\<close>, \<open>trianglesOnOppositeSides\<close> is true exactly
  when the orientations of \<open>(a, c, b)\<close> and \<open>(a, c, d)\<close> are both non-zero and of opposite
  sign; so it is false when one of them is zero or when they have the same sign, and it
  is true on the default additive configuration.
\<close>

theorem trianglesOnOppositeSides_iff:
  "(trianglesOnOppositeSides (Some [a, b, c, d]) \<longleftrightarrow>
      orientation a c b \<noteq> 0 \<and> orientation a c d \<noteq> 0
      \<and> ((orientation a c b < 0 \<and> 0 < orientation a c d)
         \<or> (0 < orientation a c b \<and> orientation a c d < 0)))
   \<and> (orientation a c b = 0 \<or> orientation a c d = 0 \<longrightarrow>
        \<not> trianglesOnOppositeSides (Some [a, b, c, d]))
   \<and> ((orientation a c b < 0 \<and> orientation a c d < 0)
        \<or> (0 < orientation a c b \<and> 0 < orientation a c d) \<longrightarrow>
        \<not> trianglesOnOppositeSides (Some [a, b, c, d]))
   \<and> trianglesOnOppositeSides (Some [(-4, -1), (3, -1), (2, 4), (-3, 4)])"
proof -
  have ex: "trianglesOnOppositeSides (Some [(-4, -1), (3, -1), (2, 4), (-3, 4)])"
    by code_simp
  have iff: "trianglesOnOppositeSides (Some [a, b, c, d]) \<longleftrightarrow>
      orientation a c b \<noteq> 0 \<and> orientation a c d \<noteq> 0
      \<and> ((orientation a c b < 0 \<and> 0 < orientation a c d)
         \<or> (0 < orientation a c b \<and> orientation a c d < 0))"
    unfolding trianglesOnOppositeSides_def Let_def
    by (auto simp: mult_less_0_iff)
  from iff ex show ?thesis by auto
qed

theorem trianglesOnOppositeSides_iff_witness:
  "(orientation (0, 0) (2, 2) (1, 1) = 0
      \<and> \<not> trianglesOnOppositeSides (Some [(0, 0), (1, 1), (2, 2), (3, 3)]))
   \<and> (0 < orientation (0, 0) (2, 0) (1, 1) \<and> 0 < orientation (0, 0) (2, 0) (0, 2)
      \<and> \<not> trianglesOnOppositeSides (Some [(0, 0), (1, 1), (2, 0), (0, 2)]))"
  using trianglesOnOppositeSides_iff [of "(0, 0)" "(1, 1)" "(2, 2)" "(3, 3)"]
        trianglesOnOppositeSides_iff [of "(0, 0)" "(1, 1)" "(2, 0)" "(0, 2)"]
  by simp

text \<open>
  C10: \<open>isSimplePolygon\<close> returns \<open>false\<close>, a value, on a missing argument and on every
  list of fewer than three vertices.
\<close>

theorem isSimplePolygon_outside_domain:
  "\<not> isSimplePolygon None \<and> (length vs < 3 \<longrightarrow> \<not> isSimplePolygon (Some vs))"
  by (simp add: isSimplePolygon_def)

theorem isSimplePolygon_outside_domain_witness:
  "length [(0, 0), (1, 0) :: point] < 3 \<and> \<not> isSimplePolygon (Some [(0, 0), (1, 0)])
   \<and> \<not> isSimplePolygon (Some [])"
  using isSimplePolygon_outside_domain [of "[(0, 0), (1, 0)]"]
        isSimplePolygon_outside_domain [of "[]"]
  by simp


section \<open>The decomposition\<close>

lemma upto_snoc_nat: "[0..int (Suc m) - 1] = [0..int m - 1] @ [int m]"
  using upto_rec2 [of 0 "int m"] by simp

lemma length_row_prefix:
  "length (concat (map (\<lambda>j. cell_triangles v0 n i j) [0..int m - 1]))
     = m + min m (nat (n - 1 - i))"
proof (induction m)
  case 0
  show ?case by simp
next
  case (Suc m)
  have "length (cell_triangles v0 n i (int m)) = 1 + (if m < nat (n - 1 - i) then 1 else 0)"
    by (auto simp: cell_triangles_def)
  with Suc show ?case
    by (simp only: upto_snoc_nat map_append concat_append length_append list.map concat.simps
                   append_Nil2) (simp split: if_splits)
qed

lemma length_row:
  assumes "0 \<le> i" "i < n"
  shows "int (length (concat (map (\<lambda>j. cell_triangles v0 n i j) [0..n - i - 1])))
           = 2 * (n - i) - 1"
proof -
  have "[0..n - i - 1] = [0..int (nat (n - i)) - 1]"
    using assms by simp
  then have "length (concat (map (\<lambda>j. cell_triangles v0 n i j) [0..n - i - 1]))
               = nat (n - i) + min (nat (n - i)) (nat (n - 1 - i))"
    by (simp only: length_row_prefix)
  then show ?thesis using assms by simp
qed

lemma length_rows_prefix:
  "int m \<le> n \<Longrightarrow>
   int (length (concat (map (\<lambda>i. concat (map (\<lambda>j. cell_triangles v0 n i j) [0..n - i - 1]))
                            [0..int m - 1])))
     = 2 * n * int m - int m * int m"
proof (induction m)
  case 0
  show ?case by simp
next
  case (Suc m)
  have row: "int (length (concat (map (\<lambda>j. cell_triangles v0 n (int m) j) [0..n - int m - 1])))
               = 2 * (n - int m) - 1"
    using Suc.prems by (intro length_row) simp_all
  have ih: "int (length (concat (map (\<lambda>i. concat (map (\<lambda>j. cell_triangles v0 n i j) [0..n - i - 1]))
                            [0..int m - 1])))
     = 2 * n * int m - int m * int m"
    using Suc by simp
  show ?case
    apply (simp only: upto_snoc_nat map_append concat_append length_append list.map concat.simps
                   append_Nil2 of_nat_add row ih)
    apply (simp add: algebra_simps)
    done
qed

lemma length_allTriangles: "0 \<le> n \<Longrightarrow> int (length (allTriangles v0 n)) = n * n"
  using length_rows_prefix [of "nat n" n v0] by (simp add: allTriangles_def algebra_simps)

lemma mem_allTriangles:
  "t \<in> set (allTriangles v0 n) \<longleftrightarrow>
     (\<exists>i j. 0 \<le> i \<and> i < n \<and> 0 \<le> j \<and> j < n - i
        \<and> (t = lower_triangle v0 i j \<or> (t = upper_triangle v0 i j \<and> i + j < n - 1)))"
proof -
  have "t \<in> set (allTriangles v0 n) \<longleftrightarrow>
          (\<exists>i\<in>{0..n - 1}. \<exists>j\<in>{0..n - i - 1}.
             t = lower_triangle v0 i j \<or> (t = upper_triangle v0 i j \<and> i + j < n - 1))"
    by (auto simp: allTriangles_def cell_triangles_def split: if_splits)
  also have "\<dots> \<longleftrightarrow>
          (\<exists>i j. (0 \<le> i \<and> i \<le> n - 1) \<and> (0 \<le> j \<and> j \<le> n - i - 1)
             \<and> (t = lower_triangle v0 i j \<or> (t = upper_triangle v0 i j \<and> i + j < n - 1)))"
    by (simp only: Bex_def atLeastAtMost_iff conj_assoc ex_simps)
  also have "\<dots> \<longleftrightarrow>
          (\<exists>i j. 0 \<le> i \<and> i < n \<and> 0 \<le> j \<and> j < n - i
             \<and> (t = lower_triangle v0 i j \<or> (t = upper_triangle v0 i j \<and> i + j < n - 1)))"
  proof -
    have a: "\<And>i. (i \<le> n - 1) = (i < n)"
      by auto
    have b: "\<And>i j. (j \<le> n - i - 1) = (j < n - i)"
      by auto
    show ?thesis by (simp only: a b conj_assoc)
  qed
  finally show ?thesis .
qed

lemma set_allTriangles:
  "set (allTriangles v0 n)
     = {lower_triangle v0 i j | i j. 0 \<le> i \<and> i < n \<and> 0 \<le> j \<and> j < n - i}
       \<union> {upper_triangle v0 i j | i j. 0 \<le> i \<and> i < n \<and> 0 \<le> j \<and> j < n - i \<and> i + j < n - 1}"
proof (rule set_eqI)
  fix t
  show "t \<in> set (allTriangles v0 n) \<longleftrightarrow>
          t \<in> {lower_triangle v0 i j | i j. 0 \<le> i \<and> i < n \<and> 0 \<le> j \<and> j < n - i}
                \<union> {upper_triangle v0 i j | i j. 0 \<le> i \<and> i < n \<and> 0 \<le> j \<and> j < n - i \<and> i + j < n - 1}"
    unfolding mem_allTriangles Un_iff mem_Collect_eq by blast
qed

lemma distinct_concat_map:
  "distinct xs \<Longrightarrow> (\<And>x. x \<in> set xs \<Longrightarrow> distinct (f x))
     \<Longrightarrow> (\<And>x y. x \<in> set xs \<Longrightarrow> y \<in> set xs \<Longrightarrow> x \<noteq> y \<Longrightarrow> set (f x) \<inter> set (f y) = {})
     \<Longrightarrow> distinct (concat (map f xs))"
  by (induction xs) auto

lemma distinct_allTriangles: "distinct (allTriangles v0 n)"
  unfolding allTriangles_def
proof (rule distinct_concat_map)
  show "distinct [0..n - 1]" by simp
next
  fix i
  show "distinct (concat (map (\<lambda>j. cell_triangles v0 n i j) [0..n - i - 1]))"
    by (rule distinct_concat_map)
       (auto simp: cell_triangles_def lower_triangle_def upper_triangle_def)
next
  fix i i' :: int
  assume "i \<noteq> i'"
  then show "set (concat (map (\<lambda>j. cell_triangles v0 n i j) [0..n - i - 1]))
        \<inter> set (concat (map (\<lambda>j. cell_triangles v0 n i' j) [0..n - i' - 1])) = {}"
    by (auto simp: cell_triangles_def lower_triangle_def upper_triangle_def split: if_splits)
qed

lemma area2_triple:
  "area2 [a, b, c] = fst a * snd b - fst b * snd a + (fst b * snd c - fst c * snd b)
                       + (fst c * snd a - fst a * snd c)"
  by (simp add: area2_def upt_rec)

lemma area_unit_triangle:
  "t \<in> set (allTriangles v0 n) \<Longrightarrow> polygonAreaValue (Some (vertices t)) = 1 / 2"
  by (auto simp: mem_allTriangles lower_triangle_def upper_triangle_def polygonAreaValue_def
                 area2_triple algebra_simps)

lemma sum_list_constant:
  "(\<And>x. x \<in> set xs \<Longrightarrow> f x = (c::rat)) \<Longrightarrow> sum_list (map f xs) = of_nat (length xs) * c"
  by (induction xs) (auto simp: algebra_simps)

text \<open>
  C2: for every positive leg length \<open>n\<close> the decomposition has \<open>n\<^sup>2\<close> triangles, all
  different: the lower triangle of every cell \<open>(i, j)\<close> with \<open>0 \<le> i < n\<close> and
  \<open>0 \<le> j < n - i\<close>, and the upper triangle of exactly those cells with \<open>i + j < n - 1\<close>.
  Each has area one half, and the areas add up to \<open>n\<^sup>2 / 2\<close>.
\<close>

theorem allTriangles_count_and_area:
  assumes "0 < n"
  shows "int (length (allTriangles v0 n)) = n * n
     \<and> distinct (allTriangles v0 n)
     \<and> set (allTriangles v0 n)
         = {lower_triangle v0 i j | i j. 0 \<le> i \<and> i < n \<and> 0 \<le> j \<and> j < n - i}
           \<union> {upper_triangle v0 i j | i j. 0 \<le> i \<and> i < n \<and> 0 \<le> j \<and> j < n - i \<and> i + j < n - 1}
     \<and> (\<Sum>t\<leftarrow>allTriangles v0 n. \<bar>polygonAreaValue (Some (vertices t))\<bar>) = of_int (n * n) / 2"
proof -
  have len: "int (length (allTriangles v0 n)) = n * n"
    using assms by (simp add: length_allTriangles)
  have "(\<Sum>t\<leftarrow>allTriangles v0 n. \<bar>polygonAreaValue (Some (vertices t))\<bar>)
          = of_nat (length (allTriangles v0 n)) * (1 / 2)"
    by (rule sum_list_constant) (simp add: area_unit_triangle)
  also have "\<dots> = of_int (int (length (allTriangles v0 n))) / 2"
    by simp
  finally have "(\<Sum>t\<leftarrow>allTriangles v0 n. \<bar>polygonAreaValue (Some (vertices t))\<bar>)
                  = of_int (n * n) / 2"
    by (simp only: len)
  with len distinct_allTriangles [of v0 n] set_allTriangles [of v0 n] show ?thesis
    by blast
qed

theorem allTriangles_count_and_area_witness:
  "(0::int) < 4 \<and> length (allTriangles (-2, -2) 4) = 16
   \<and> (\<Sum>t\<leftarrow>allTriangles (-2, -2) 4. \<bar>polygonAreaValue (Some (vertices t))\<bar>) = 8"
  using allTriangles_count_and_area [of 4 "(-2, -2)"] by simp


section \<open>Simple polygons\<close>

lemma orientation_cross:
  "orientation a b c = cross_product (vector_from a b) (vector_from a c)"
  by (cases a; cases b; cases c) (simp add: cross_product_def vector_from_def)

lemma turn_sign_orientation: "turn_sign a b c = sgn (orientation a b c)"
  by (simp add: turn_sign_def orientation_cross)

lemma opposite_signs_sgn: "opposite_signs (sgn s) (sgn t) \<longleftrightarrow> s * t < 0"
  by (auto simp: opposite_signs_def sgn_if mult_less_0_iff)

lemma onSegment_box: "onSegment a q b \<longleftrightarrow> in_bounding_box q a b"
  by (cases a; cases q; cases b) (auto simp: in_bounding_box_def)

lemma segmentsIntersect_spec:
  "segmentsIntersect p1 p2 p3 p4 \<longleftrightarrow> edges_intersect p1 p2 p3 p4"
  unfolding segmentsIntersect_def edges_intersect_def Let_def turn_sign_orientation
            opposite_signs_sgn sgn_0_0 onSegment_box
  by auto

lemma edges_cross_spec:
  "edges_cross vs i j \<longleftrightarrow>
     edges_intersect (vs ! i) (vs ! ((i + 1) mod length vs)) (vs ! j) (vs ! ((j + 1) mod length vs))"
  by (simp add: edges_cross_def Let_def segmentsIntersect_spec)

lemma area2_snoc:
  assumes "vs \<noteq> []"
  shows "area2 (vs @ [z]) = area2 vs - cross_product (last vs) (hd vs)
           + cross_product (last vs) z + cross_product z (hd vs)"
proof -
  define n where "n = length vs - 1"
  have len: "length vs = Suc n"
    using assms by (simp add: n_def)
  have inner: "(\<Sum>i\<leftarrow>[0..<n]. fst ((vs @ [z]) ! i) * snd ((vs @ [z]) ! ((i + 1) mod Suc (Suc n)))
                   - fst ((vs @ [z]) ! ((i + 1) mod Suc (Suc n))) * snd ((vs @ [z]) ! i))
        = (\<Sum>i\<leftarrow>[0..<n]. fst (vs ! i) * snd (vs ! ((i + 1) mod Suc n))
                   - fst (vs ! ((i + 1) mod Suc n)) * snd (vs ! i))"
    by (rule arg_cong [where f = sum_list], rule map_cong) (auto simp: nth_append len)
  have l: "last vs = vs ! n" and h: "hd vs = vs ! 0"
    using assms by (simp_all add: last_conv_nth hd_conv_nth n_def)
  have "area2 (vs @ [z])
          = (\<Sum>i\<leftarrow>[0..<n]. fst ((vs @ [z]) ! i) * snd ((vs @ [z]) ! ((i + 1) mod Suc (Suc n)))
                   - fst ((vs @ [z]) ! ((i + 1) mod Suc (Suc n))) * snd ((vs @ [z]) ! i))
            + cross_product (vs ! n) z + cross_product z (vs ! 0)"
    by (simp add: area2_def len nth_append cross_product_def algebra_simps)
  moreover have "area2 vs
          = (\<Sum>i\<leftarrow>[0..<n]. fst (vs ! i) * snd (vs ! ((i + 1) mod Suc n))
                   - fst (vs ! ((i + 1) mod Suc n)) * snd (vs ! i))
            + cross_product (vs ! n) (vs ! 0)"
    by (simp add: area2_def len cross_product_def algebra_simps)
  ultimately show ?thesis
    using inner by (simp add: l h)
qed

lemma fan_cross_snoc:
  "fan_cross v (r @ [z])
     = fan_cross v r
       + (if r = [] then 0 else cross_product (vector_from v (last r)) (vector_from v z))"
  by (induction v r rule: fan_cross.induct) auto

lemma area2_fan: "area2 (v # r) = fan_cross v r"
proof (induction r rule: rev_induct)
  case Nil
  show ?case by (simp add: area2_def)
next
  case (snoc z r)
  have "area2 (v # r @ [z]) = area2 ((v # r) @ [z])"
    by simp
  also have "\<dots> = area2 (v # r) - cross_product (last (v # r)) v
                     + cross_product (last (v # r)) z + cross_product z v"
    by (subst area2_snoc) simp_all
  also have "\<dots> = fan_cross v (r @ [z])"
    unfolding snoc.IH fan_cross_snoc
    by (simp add: cross_product_def vector_from_def algebra_simps)
  finally show ?case .
qed

lemma polygonAreaValue_spec:
  "3 \<le> length vs \<Longrightarrow> polygonAreaValue (Some vs) = signed_area vs"
  by (cases vs) (simp_all add: polygonAreaValue_def signed_area_def area2_fan)

lemma segmentsIntersect_sym: "segmentsIntersect p1 p2 p3 p4 = segmentsIntersect p3 p4 p1 p2"
  unfolding segmentsIntersect_def Let_def by auto

lemma edges_cross_sym: "edges_cross vs i j = edges_cross vs j i"
  unfolding edges_cross_def Let_def by (rule segmentsIntersect_sym)

lemma not_skipped_iff:
  "i < j \<Longrightarrow> j < n \<Longrightarrow> \<not> edge_pair_skipped n i j \<longleftrightarrow> non_adjacent n i j"
  unfolding edge_pair_skipped_def non_adjacent_def by auto

lemma non_adjacent_sym: "non_adjacent n i j = non_adjacent n j i"
  unfolding non_adjacent_def by auto

lemma no_crossing_iff:
  "\<not> list_ex (\<lambda>i. list_ex (\<lambda>j. \<not> edge_pair_skipped (length vs) i j \<and> edges_cross vs i j)
                             [i + 1..<length vs])
               [0..<length vs]
   \<longleftrightarrow> (\<forall>i<length vs. \<forall>j<length vs. non_adjacent (length vs) i j \<longrightarrow> \<not> edges_cross vs i j)"
  (is "?code \<longleftrightarrow> ?spec")
proof
  assume c: ?code
  have ordered: "\<not> edges_cross vs i j"
    if "i < j" "j < length vs" "non_adjacent (length vs) i j" for i j
  proof -
    from that have "\<not> edge_pair_skipped (length vs) i j"
      by (simp add: not_skipped_iff)
    moreover from c have "\<forall>i\<in>{0..<length vs}. \<forall>j\<in>{Suc i..<length vs}.
        edge_pair_skipped (length vs) i j \<or> \<not> edges_cross vs i j"
      by (simp add: list_ex_iff)
    moreover from that have "i \<in> {0..<length vs}" "j \<in> {Suc i..<length vs}"
      by auto
    ultimately show ?thesis by blast
  qed
  show ?spec
  proof (intro allI impI)
    fix i j
    assume i: "i < length vs" and j: "j < length vs"
      and na: "non_adjacent (length vs) i j"
    then have "i \<noteq> j" by (simp add: non_adjacent_def)
    then consider "i < j" | "j < i" by linarith
    then show "\<not> edges_cross vs i j"
    proof cases
      case 1
      with j na show ?thesis by (simp add: ordered)
    next
      case 2
      from na have "non_adjacent (length vs) j i"
        by (simp add: non_adjacent_sym)
      with 2 i have "\<not> edges_cross vs j i" by (simp add: ordered)
      then show ?thesis by (simp add: edges_cross_sym)
    qed
  qed
next
  assume s: ?spec
  show ?code
  proof
    assume "list_ex (\<lambda>i. list_ex (\<lambda>j. \<not> edge_pair_skipped (length vs) i j \<and> edges_cross vs i j)
                             [i + 1..<length vs])
               [0..<length vs]"
    then obtain i j where "i < j" "j < length vs"
      "\<not> edge_pair_skipped (length vs) i j" "edges_cross vs i j"
      by (auto simp: list_ex_iff Suc_le_eq)
    moreover from this have "non_adjacent (length vs) i j"
      by (simp add: not_skipped_iff)
    ultimately show False using s by auto
  qed
qed

subsection \<open>The intersection test and common points of segments\<close>

lemma convex_between:
  fixes u w t :: real
  assumes "0 \<le> t" "t \<le> 1"
  shows "min u w \<le> u + t * (w - u) \<and> u + t * (w - u) \<le> max u w"
proof (cases "u \<le> w")
  case True
  then have mn: "min u w = u" "max u w = w" by simp_all
  have lo: "0 \<le> t * (w - u)"
    using True assms by simp
  have hi: "t * (w - u) \<le> w - u"
    using mult_right_mono [of t 1 "w - u"] True assms by simp
  show ?thesis unfolding mn using lo hi by linarith
next
  case False
  then have mn: "min u w = w" "max u w = u" by simp_all
  have hi: "t * (w - u) \<le> 0"
    using False assms by (simp add: mult_le_0_iff)
  have lo: "w - u \<le> t * (w - u)"
    using mult_right_mono_neg [of t 1 "w - u"] False assms by simp
  show ?thesis unfolding mn using lo hi by linarith
qed

lemma param_collinear_box:
  fixes x1 y1 x2 y2 x y t :: real
  assumes "0 \<le> t" "t \<le> 1" "x = x1 + t * (x2 - x1)" "y = y1 + t * (y2 - y1)"
  shows "(x2 - x1) * (y - y1) - (y2 - y1) * (x - x1) = 0
         \<and> min x1 x2 \<le> x \<and> x \<le> max x1 x2 \<and> min y1 y2 \<le> y \<and> y \<le> max y1 y2"
  using convex_between [OF assms(1,2), of x1 x2] convex_between [OF assms(1,2), of y1 y2]
  by (simp add: assms(3,4) algebra_simps)

lemma collinear_box_param:
  fixes x1 y1 x2 y2 x y :: real
  assumes cross: "(x2 - x1) * (y - y1) - (y2 - y1) * (x - x1) = 0"
    and box: "min x1 x2 \<le> x" "x \<le> max x1 x2" "min y1 y2 \<le> y" "y \<le> max y1 y2"
  shows "\<exists>t. 0 \<le> t \<and> t \<le> 1 \<and> x = x1 + t * (x2 - x1) \<and> y = y1 + t * (y2 - y1)"
proof (cases "x2 = x1")
  case False
  define t where "t = (x - x1) / (x2 - x1)"
  have tx: "x = x1 + t * (x2 - x1)"
    using False by (simp add: t_def)
  have "0 \<le> t \<and> t \<le> 1"
  proof (cases "x1 < x2")
    case True
    with box show ?thesis by (simp add: t_def)
  next
    case f: False
    with False have "x2 < x1" by simp
    with box show ?thesis
      by (simp add: t_def divide_le_0_iff neg_divide_le_eq zero_le_divide_iff)
  qed
  moreover have "y = y1 + t * (y2 - y1)"
  proof -
    from cross have "(x2 - x1) * (y - y1) = (y2 - y1) * (x - x1)" by simp
    then have "y - y1 = (x - x1) / (x2 - x1) * (y2 - y1)"
      using False by (simp add: field_simps)
    then show ?thesis by (simp add: t_def)
  qed
  ultimately show ?thesis using tx by blast
next
  case True
  note xeq = True
  show ?thesis
  proof (cases "y2 = y1")
    case True
    with xeq box have "x = x1" "y = y1" by simp_all
    then have "0 \<le> (0::real) \<and> (0::real) \<le> 1 \<and> x = x1 + 0 * (x2 - x1) \<and> y = y1 + 0 * (y2 - y1)"
      by simp
    then show ?thesis by blast
  next
    case False
    define t where "t = (y - y1) / (y2 - y1)"
    have ty: "y = y1 + t * (y2 - y1)"
      using False by (simp add: t_def)
    have "0 \<le> t \<and> t \<le> 1"
    proof (cases "y1 < y2")
      case True
      with box show ?thesis by (simp add: t_def)
    next
      case f: False
      with False have "y2 < y1" by simp
      with box show ?thesis
        by (simp add: t_def divide_le_0_iff neg_divide_le_eq zero_le_divide_iff)
    qed
    moreover have "x = x1 + t * (x2 - x1)"
      using xeq box by simp
    ultimately show ?thesis using ty by blast
  qed
qed

lemma ratio_unit:
  fixes p q :: real
  assumes "p * q < 0"
  shows "0 \<le> p / (p - q) \<and> p / (p - q) \<le> 1"
proof -
  from assms consider "0 < p" "q < 0" | "p < 0" "0 < q"
    by (auto simp: mult_less_0_iff)
  then show ?thesis
  proof cases
    case 1
    then have "0 < p - q" by simp
    with 1 show ?thesis by (simp add: pos_divide_le_eq)
  next
    case 2
    then have "p - q < 0" by simp
    with 2 show ?thesis by (simp add: neg_divide_le_eq zero_le_divide_iff)
  qed
qed

lemma proper_crossing_meets:
  fixes x1 y1 x2 y2 x3 y3 x4 y4 :: real
  defines "o1 \<equiv> (x2 - x1) * (y3 - y1) - (y2 - y1) * (x3 - x1)"
    and "o2 \<equiv> (x2 - x1) * (y4 - y1) - (y2 - y1) * (x4 - x1)"
    and "o3 \<equiv> (x4 - x3) * (y1 - y3) - (y4 - y3) * (x1 - x3)"
    and "o4 \<equiv> (x4 - x3) * (y2 - y3) - (y4 - y3) * (x2 - x3)"
  assumes a: "o1 * o2 < 0" and b: "o3 * o4 < 0"
  shows "\<exists>t u. 0 \<le> t \<and> t \<le> 1 \<and> 0 \<le> u \<and> u \<le> 1
           \<and> x1 + t * (x2 - x1) = x3 + u * (x4 - x3)
           \<and> y1 + t * (y2 - y1) = y3 + u * (y4 - y3)"
proof -
  define D where "D = (x2 - x1) * (y4 - y3) - (y2 - y1) * (x4 - x3)"
  have d34: "o3 - o4 = D" and d12: "o1 - o2 = - D"
    by (simp_all add: o1_def o2_def o3_def o4_def D_def algebra_simps)
  from b d34 have Dnz: "D \<noteq> 0"
    by (auto simp: mult_less_0_iff)
  define t where "t = o3 / (o3 - o4)"
  define u where "u = o1 / (o1 - o2)"
  have t01: "0 \<le> t \<and> t \<le> 1"
    unfolding t_def using b by (rule ratio_unit)
  have u01: "0 \<le> u \<and> u \<le> 1"
    unfolding u_def using a by (rule ratio_unit)
  have tD: "D * t = o3" and uD: "D * u = - o1"
    using Dnz by (simp_all add: t_def u_def d34 d12)
  have ex: "D * (x1 - x3) + o3 * (x2 - x1) + o1 * (x4 - x3) = 0"
    and ey: "D * (y1 - y3) + o3 * (y2 - y1) + o1 * (y4 - y3) = 0"
    by (simp_all add: o1_def o3_def D_def algebra_simps)
  have "D * (x1 + t * (x2 - x1)) = D * x1 + (D * t) * (x2 - x1)"
    by (simp add: algebra_simps)
  also have "\<dots> = D * x3 + (D * u) * (x4 - x3)"
    using ex unfolding tD uD by (simp add: algebra_simps)
  also have "\<dots> = D * (x3 + u * (x4 - x3))"
    by (simp add: algebra_simps)
  finally have "D * (x1 + t * (x2 - x1)) = D * (x3 + u * (x4 - x3))" .
  then have qx: "x1 + t * (x2 - x1) = x3 + u * (x4 - x3)"
    using Dnz by simp
  have "D * (y1 + t * (y2 - y1)) = D * y1 + (D * t) * (y2 - y1)"
    by (simp add: algebra_simps)
  also have "\<dots> = D * y3 + (D * u) * (y4 - y3)"
    using ey unfolding tD uD by (simp add: algebra_simps)
  also have "\<dots> = D * (y3 + u * (y4 - y3))"
    by (simp add: algebra_simps)
  finally have "D * (y1 + t * (y2 - y1)) = D * (y3 + u * (y4 - y3))" .
  then have qy: "y1 + t * (y2 - y1) = y3 + u * (y4 - y3)"
    using Dnz by simp
  from t01 u01 qx qy show ?thesis by blast
qed

lemma weights_opposite:
  fixes p q u :: real
  assumes u: "0 \<le> u" "u \<le> 1" and eq: "(1 - u) * p + u * q = 0" and nz: "p \<noteq> 0" "q \<noteq> 0"
  shows "p * q < 0"
proof -
  have "u \<noteq> 0" using eq nz by auto
  moreover have "u \<noteq> 1" using eq nz by auto
  ultimately have u': "0 < u" "0 < 1 - u" using u by simp_all
  from eq have "(1 - u) * p = - (u * q)" by simp
  then have "(1 - u) * p * q = - (u * q) * q" by simp
  then have "(1 - u) * (p * q) = - (u * (q * q))" by (simp add: mult.assoc)
  moreover have "0 < u * (q * q)" using u' nz by (auto simp: zero_less_mult_iff)
  ultimately have "(1 - u) * (p * q) < 0" by simp
  with u' show ?thesis by (simp add: mult_less_0_iff)
qed

lemma between_weights:
  fixes x1 y1 x2 y2 x3 y3 x4 y4 t u :: real
  assumes ex: "x1 + t * (x2 - x1) = x3 + u * (x4 - x3)"
    and ey: "y1 + t * (y2 - y1) = y3 + u * (y4 - y3)"
  shows "(1 - u) * ((x2 - x1) * (y3 - y1) - (y2 - y1) * (x3 - x1))
           + u * ((x2 - x1) * (y4 - y1) - (y2 - y1) * (x4 - x1)) = 0"
proof -
  have "(1 - u) * ((x2 - x1) * (y3 - y1) - (y2 - y1) * (x3 - x1))
           + u * ((x2 - x1) * (y4 - y1) - (y2 - y1) * (x4 - x1))
        = (x2 - x1) * ((y3 + u * (y4 - y3)) - y1) - (y2 - y1) * ((x3 + u * (x4 - x3)) - x1)"
    by (simp add: algebra_simps)
  also have "\<dots> = (x2 - x1) * (t * (y2 - y1)) - (y2 - y1) * (t * (x2 - x1))"
    by (simp add: ex [symmetric] ey [symmetric])
  also have "\<dots> = 0" by simp
  finally show ?thesis .
qed

lemma collinear_overlap:
  fixes x1 y1 x2 y2 x3 y3 x4 y4 t u :: real
  assumes c3: "(x2 - x1) * (y3 - y1) - (y2 - y1) * (x3 - x1) = 0"
    and c4: "(x2 - x1) * (y4 - y1) - (y2 - y1) * (x4 - x1) = 0"
    and t: "0 \<le> t" "t \<le> 1" and u: "0 \<le> u" "u \<le> 1"
    and ex: "x1 + t * (x2 - x1) = x3 + u * (x4 - x3)"
    and ey: "y1 + t * (y2 - y1) = y3 + u * (y4 - y3)"
  shows "(min x1 x2 \<le> x3 \<and> x3 \<le> max x1 x2 \<and> min y1 y2 \<le> y3 \<and> y3 \<le> max y1 y2)
       \<or> (min x1 x2 \<le> x4 \<and> x4 \<le> max x1 x2 \<and> min y1 y2 \<le> y4 \<and> y4 \<le> max y1 y2)
       \<or> ((x4 - x3) * (y1 - y3) - (y4 - y3) * (x1 - x3) = 0
           \<and> min x3 x4 \<le> x1 \<and> x1 \<le> max x3 x4 \<and> min y3 y4 \<le> y1 \<and> y1 \<le> max y3 y4)"
proof (cases "x2 = x1 \<and> y2 = y1")
  case True
  then have "x1 = x3 + u * (x4 - x3)" "y1 = y3 + u * (y4 - y3)"
    using ex ey by simp_all
  with u show ?thesis
    using param_collinear_box [of u x1 x3 x4 y1 y3 y4] by simp
next
  case False
  define N where "N = (x2 - x1) * (x2 - x1) + (y2 - y1) * (y2 - y1)"
  have Npos: "0 < N"
  proof -
    from False have "x2 - x1 \<noteq> 0 \<or> y2 - y1 \<noteq> 0" by auto
    then have "0 < (x2 - x1) * (x2 - x1) \<or> 0 < (y2 - y1) * (y2 - y1)"
      by (auto simp: zero_less_mult_iff)
    moreover have "0 \<le> (x2 - x1) * (x2 - x1)" "0 \<le> (y2 - y1) * (y2 - y1)"
      by simp_all
    ultimately show ?thesis unfolding N_def by linarith
  qed
  define a where "a = ((x3 - x1) * (x2 - x1) + (y3 - y1) * (y2 - y1)) / N"
  define b where "b = ((x4 - x1) * (x2 - x1) + (y4 - y1) * (y2 - y1)) / N"
  have c3': "(x2 - x1) * (y3 - y1) = (y2 - y1) * (x3 - x1)" using c3 by simp
  have c4': "(x2 - x1) * (y4 - y1) = (y2 - y1) * (x4 - x1)" using c4 by simp
  have "N * (x3 - x1) = ((x3 - x1) * (x2 - x1) + (y3 - y1) * (y2 - y1)) * (x2 - x1)"
  proof -
    have "((x3 - x1) * (x2 - x1) + (y3 - y1) * (y2 - y1)) * (x2 - x1)
            = (x3 - x1) * ((x2 - x1) * (x2 - x1)) + (y2 - y1) * ((x2 - x1) * (y3 - y1))"
      by (simp add: algebra_simps)
    also have "\<dots> = (x3 - x1) * ((x2 - x1) * (x2 - x1)) + (y2 - y1) * ((y2 - y1) * (x3 - x1))"
      by (simp only: c3')
    also have "\<dots> = N * (x3 - x1)"
      by (simp add: N_def algebra_simps)
    finally show ?thesis by simp
  qed
  then have x3: "x3 = x1 + a * (x2 - x1)"
    using Npos by (simp add: a_def field_simps)
  have "N * (y3 - y1) = ((x3 - x1) * (x2 - x1) + (y3 - y1) * (y2 - y1)) * (y2 - y1)"
  proof -
    have "((x3 - x1) * (x2 - x1) + (y3 - y1) * (y2 - y1)) * (y2 - y1)
            = (x2 - x1) * ((y2 - y1) * (x3 - x1)) + (y3 - y1) * ((y2 - y1) * (y2 - y1))"
      by (simp add: algebra_simps)
    also have "\<dots> = (x2 - x1) * ((x2 - x1) * (y3 - y1)) + (y3 - y1) * ((y2 - y1) * (y2 - y1))"
      by (simp only: c3')
    also have "\<dots> = N * (y3 - y1)"
      by (simp add: N_def algebra_simps)
    finally show ?thesis by simp
  qed
  then have y3: "y3 = y1 + a * (y2 - y1)"
    using Npos by (simp add: a_def field_simps)
  have "N * (x4 - x1) = ((x4 - x1) * (x2 - x1) + (y4 - y1) * (y2 - y1)) * (x2 - x1)"
  proof -
    have "((x4 - x1) * (x2 - x1) + (y4 - y1) * (y2 - y1)) * (x2 - x1)
            = (x4 - x1) * ((x2 - x1) * (x2 - x1)) + (y2 - y1) * ((x2 - x1) * (y4 - y1))"
      by (simp add: algebra_simps)
    also have "\<dots> = (x4 - x1) * ((x2 - x1) * (x2 - x1)) + (y2 - y1) * ((y2 - y1) * (x4 - x1))"
      by (simp only: c4')
    also have "\<dots> = N * (x4 - x1)"
      by (simp add: N_def algebra_simps)
    finally show ?thesis by simp
  qed
  then have x4: "x4 = x1 + b * (x2 - x1)"
    using Npos by (simp add: b_def field_simps)
  have "N * (y4 - y1) = ((x4 - x1) * (x2 - x1) + (y4 - y1) * (y2 - y1)) * (y2 - y1)"
  proof -
    have "((x4 - x1) * (x2 - x1) + (y4 - y1) * (y2 - y1)) * (y2 - y1)
            = (x2 - x1) * ((y2 - y1) * (x4 - x1)) + (y4 - y1) * ((y2 - y1) * (y2 - y1))"
      by (simp add: algebra_simps)
    also have "\<dots> = (x2 - x1) * ((x2 - x1) * (y4 - y1)) + (y4 - y1) * ((y2 - y1) * (y2 - y1))"
      by (simp only: c4')
    also have "\<dots> = N * (y4 - y1)"
      by (simp add: N_def algebra_simps)
    finally show ?thesis by simp
  qed
  then have y4: "y4 = y1 + b * (y2 - y1)"
    using Npos by (simp add: b_def field_simps)
  have tab: "t = a + u * (b - a)"
  proof -
    have "(t - (a + u * (b - a))) * (x2 - x1) = 0"
      using ex by (simp add: x3 x4 algebra_simps)
    moreover have "(t - (a + u * (b - a))) * (y2 - y1) = 0"
      using ey by (simp add: y3 y4 algebra_simps)
    ultimately show ?thesis using False by auto
  qed
  show ?thesis
  proof (cases "0 \<le> a \<and> a \<le> 1")
    case True
    then show ?thesis
      using param_collinear_box [of a x3 x1 x2 y3 y1 y2] x3 y3 by simp
  next
    case na: False
    show ?thesis
    proof (cases "0 \<le> b \<and> b \<le> 1")
      case True
      then show ?thesis
        using param_collinear_box [of b x4 x1 x2 y4 y1 y2] x4 y4 by simp
    next
      case nb: False
      have btw: "min a b \<le> t \<and> t \<le> max a b"
        using convex_between [OF u, of a b] by (simp add: tab)
      from na nb btw t have ab: "a * b < 0"
        by (auto simp: mult_less_0_iff min_def max_def split: if_splits)
      define s where "s = a / (a - b)"
      have s01: "0 \<le> s \<and> s \<le> 1"
        unfolding s_def using ab by (rule ratio_unit)
      from ab have "a - b \<noteq> 0" by auto
      then have sab: "s * (b - a) = - a"
        by (simp add: s_def field_simps)
      have "x3 + s * (x4 - x3) = x1 + (a + s * (b - a)) * (x2 - x1)"
        by (subst x3, subst x4, subst x3) (simp add: algebra_simps)
      then have px: "x1 = x3 + s * (x4 - x3)"
        by (simp add: sab)
      have "y3 + s * (y4 - y3) = y1 + (a + s * (b - a)) * (y2 - y1)"
        by (subst y3, subst y4, subst y3) (simp add: algebra_simps)
      then have py: "y1 = y3 + s * (y4 - y3)"
        by (simp add: sab)
      from s01 px py show ?thesis
        using param_collinear_box [of s x1 x3 x4 y1 y3 y4] by simp
    qed
  qed
qed

lemma meet_implies_test:
  fixes x1 y1 x2 y2 x3 y3 x4 y4 t u :: real
  defines "o1 \<equiv> (x2 - x1) * (y3 - y1) - (y2 - y1) * (x3 - x1)"
    and "o2 \<equiv> (x2 - x1) * (y4 - y1) - (y2 - y1) * (x4 - x1)"
    and "o3 \<equiv> (x4 - x3) * (y1 - y3) - (y4 - y3) * (x1 - x3)"
    and "o4 \<equiv> (x4 - x3) * (y2 - y3) - (y4 - y3) * (x2 - x3)"
  assumes t: "0 \<le> t" "t \<le> 1" and u: "0 \<le> u" "u \<le> 1"
    and ex: "x1 + t * (x2 - x1) = x3 + u * (x4 - x3)"
    and ey: "y1 + t * (y2 - y1) = y3 + u * (y4 - y3)"
  shows "(o1 * o2 < 0 \<and> o3 * o4 < 0)
       \<or> (o1 = 0 \<and> min x1 x2 \<le> x3 \<and> x3 \<le> max x1 x2 \<and> min y1 y2 \<le> y3 \<and> y3 \<le> max y1 y2)
       \<or> (o2 = 0 \<and> min x1 x2 \<le> x4 \<and> x4 \<le> max x1 x2 \<and> min y1 y2 \<le> y4 \<and> y4 \<le> max y1 y2)
       \<or> (o3 = 0 \<and> min x3 x4 \<le> x1 \<and> x1 \<le> max x3 x4 \<and> min y3 y4 \<le> y1 \<and> y1 \<le> max y3 y4)
       \<or> (o4 = 0 \<and> min x3 x4 \<le> x2 \<and> x2 \<le> max x3 x4 \<and> min y3 y4 \<le> y2 \<and> y2 \<le> max y3 y4)"
proof -
  have w12: "(1 - u) * o1 + u * o2 = 0"
    unfolding o1_def o2_def using ex ey by (rule between_weights)
  have w34: "(1 - t) * o3 + t * o4 = 0"
    unfolding o3_def o4_def using ex [symmetric] ey [symmetric] by (rule between_weights)
  consider (c12) "o1 = 0" "o2 = 0" | (c34) "o3 = 0" "o4 = 0"
    | (z1) "o1 = 0" "o2 \<noteq> 0" | (z2) "o2 = 0" "o1 \<noteq> 0"
    | (z3) "o3 = 0" "o4 \<noteq> 0" | (z4) "o4 = 0" "o3 \<noteq> 0"
    | (nz) "o1 \<noteq> 0" "o2 \<noteq> 0" "o3 \<noteq> 0" "o4 \<noteq> 0"
    by blast
  then show ?thesis
  proof cases
    case c12
    then show ?thesis
      using collinear_overlap [of x2 x1 y3 y1 y2 x3 y4 x4 t u] t u ex ey
      unfolding o1_def o2_def o3_def by blast
  next
    case c34
    then show ?thesis
      using collinear_overlap [of x4 x3 y1 y3 y4 x1 y2 x2 u t] t u ex ey
      unfolding o1_def o3_def o4_def by (simp only:) blast
  next
    case z1
    with w12 have "u = 0" by simp
    with ex ey have "x3 = x1 + t * (x2 - x1)" "y3 = y1 + t * (y2 - y1)" by simp_all
    with t z1 show ?thesis
      using param_collinear_box [of t x3 x1 x2 y3 y1 y2] by simp
  next
    case z2
    with w12 have "u = 1" by simp
    with ex ey have "x4 = x1 + t * (x2 - x1)" "y4 = y1 + t * (y2 - y1)" by simp_all
    with t z2 show ?thesis
      using param_collinear_box [of t x4 x1 x2 y4 y1 y2] by simp
  next
    case z3
    with w34 have "t = 0" by simp
    with ex ey have "x1 = x3 + u * (x4 - x3)" "y1 = y3 + u * (y4 - y3)" by simp_all
    with u z3 show ?thesis
      using param_collinear_box [of u x1 x3 x4 y1 y3 y4] by simp
  next
    case z4
    with w34 have "t = 1" by simp
    with ex ey have "x2 = x3 + u * (x4 - x3)" "y2 = y3 + u * (y4 - y3)" by simp_all
    with u z4 show ?thesis
      using param_collinear_box [of u x2 x3 x4 y2 y3 y4] by simp
  next
    case nz
    have "o1 * o2 < 0"
      using u w12 nz(1,2) by (rule weights_opposite)
    moreover have "o3 * o4 < 0"
      using t w34 nz(3,4) by (rule weights_opposite)
    ultimately show ?thesis by simp
  qed
qed

lemma cross_real:
  "real_of_int (cross_product (vector_from a b) (vector_from a c))
     = (real_of_int (fst b) - real_of_int (fst a)) * (real_of_int (snd c) - real_of_int (snd a))
       - (real_of_int (snd b) - real_of_int (snd a)) * (real_of_int (fst c) - real_of_int (fst a))"
  by (simp add: cross_product_def vector_from_def)

lemma turn_zero_real:
  "turn_sign a b c = 0 \<longleftrightarrow>
     (real_of_int (fst b) - real_of_int (fst a)) * (real_of_int (snd c) - real_of_int (snd a))
       - (real_of_int (snd b) - real_of_int (snd a)) * (real_of_int (fst c) - real_of_int (fst a)) = 0"
proof -
  have "turn_sign a b c = 0 \<longleftrightarrow> cross_product (vector_from a b) (vector_from a c) = 0"
    by (simp add: turn_sign_def sgn_0_0)
  also have "\<dots> \<longleftrightarrow> real_of_int (cross_product (vector_from a b) (vector_from a c)) = 0"
    by simp
  finally show ?thesis by (simp only: cross_real)
qed

lemma opposite_real:
  "opposite_signs (turn_sign a b c) (turn_sign a b d) \<longleftrightarrow>
     ((real_of_int (fst b) - real_of_int (fst a)) * (real_of_int (snd c) - real_of_int (snd a))
       - (real_of_int (snd b) - real_of_int (snd a)) * (real_of_int (fst c) - real_of_int (fst a)))
     * ((real_of_int (fst b) - real_of_int (fst a)) * (real_of_int (snd d) - real_of_int (snd a))
       - (real_of_int (snd b) - real_of_int (snd a)) * (real_of_int (fst d) - real_of_int (fst a)))
     < 0"
proof -
  have "opposite_signs (turn_sign a b c) (turn_sign a b d) \<longleftrightarrow>
          cross_product (vector_from a b) (vector_from a c)
            * cross_product (vector_from a b) (vector_from a d) < 0"
    by (auto simp: turn_sign_def opposite_signs_def sgn_if mult_less_0_iff)
  also have "\<dots> \<longleftrightarrow>
          real_of_int (cross_product (vector_from a b) (vector_from a c)
            * cross_product (vector_from a b) (vector_from a d)) < 0"
    by (simp only: of_int_less_0_iff)
  finally show ?thesis by (simp only: of_int_mult cross_real)
qed

lemma box_real:
  "in_bounding_box q a b \<longleftrightarrow>
     min (real_of_int (fst a)) (real_of_int (fst b)) \<le> real_of_int (fst q)
     \<and> real_of_int (fst q) \<le> max (real_of_int (fst a)) (real_of_int (fst b))
     \<and> min (real_of_int (snd a)) (real_of_int (snd b)) \<le> real_of_int (snd q)
     \<and> real_of_int (snd q) \<le> max (real_of_int (snd a)) (real_of_int (snd b))"
  by (simp add: in_bounding_box_def of_int_min [symmetric] of_int_max [symmetric])

lemma segments_meet_params:
  "segments_meet p1 p2 p3 p4 \<longleftrightarrow>
     (\<exists>t u. 0 \<le> t \<and> t \<le> 1 \<and> 0 \<le> u \<and> u \<le> 1
        \<and> real_of_int (fst p1) + t * (real_of_int (fst p2) - real_of_int (fst p1))
            = real_of_int (fst p3) + u * (real_of_int (fst p4) - real_of_int (fst p3))
        \<and> real_of_int (snd p1) + t * (real_of_int (snd p2) - real_of_int (snd p1))
            = real_of_int (snd p3) + u * (real_of_int (snd p4) - real_of_int (snd p3)))"
  (is "?l \<longleftrightarrow> ?r")
proof
  assume ?l
  then obtain q t u where "0 \<le> t" "t \<le> 1" "0 \<le> u" "u \<le> 1"
    "fst q = real_of_int (fst p1) + t * (real_of_int (fst p2) - real_of_int (fst p1))"
    "snd q = real_of_int (snd p1) + t * (real_of_int (snd p2) - real_of_int (snd p1))"
    "fst q = real_of_int (fst p3) + u * (real_of_int (fst p4) - real_of_int (fst p3))"
    "snd q = real_of_int (snd p3) + u * (real_of_int (snd p4) - real_of_int (snd p3))"
    unfolding segments_meet_def on_segment_def by blast
  then have "0 \<le> t \<and> t \<le> 1 \<and> 0 \<le> u \<and> u \<le> 1
        \<and> real_of_int (fst p1) + t * (real_of_int (fst p2) - real_of_int (fst p1))
            = real_of_int (fst p3) + u * (real_of_int (fst p4) - real_of_int (fst p3))
        \<and> real_of_int (snd p1) + t * (real_of_int (snd p2) - real_of_int (snd p1))
            = real_of_int (snd p3) + u * (real_of_int (snd p4) - real_of_int (snd p3))"
    by simp
  then show ?r by blast
next
  assume ?r
  then obtain t u where tu: "0 \<le> t" "t \<le> 1" "0 \<le> u" "u \<le> 1"
    and ex: "real_of_int (fst p1) + t * (real_of_int (fst p2) - real_of_int (fst p1))
            = real_of_int (fst p3) + u * (real_of_int (fst p4) - real_of_int (fst p3))"
    and ey: "real_of_int (snd p1) + t * (real_of_int (snd p2) - real_of_int (snd p1))
            = real_of_int (snd p3) + u * (real_of_int (snd p4) - real_of_int (snd p3))"
    by blast
  define q where "q = (real_of_int (fst p1) + t * (real_of_int (fst p2) - real_of_int (fst p1)),
                       real_of_int (snd p1) + t * (real_of_int (snd p2) - real_of_int (snd p1)))"
  have "on_segment p1 p2 q"
    unfolding on_segment_def q_def using tu by auto
  moreover have "on_segment p3 p4 q"
    unfolding on_segment_def q_def using tu ex ey by auto
  ultimately show ?l
    unfolding segments_meet_def by blast
qed

lemma on_segment_lattice:
  "on_segment a b (real_of_int (fst q), real_of_int (snd q))
     \<longleftrightarrow> turn_sign a b q = 0 \<and> in_bounding_box q a b"
  (is "?l \<longleftrightarrow> ?r")
proof
  assume ?l
  then obtain t where "0 \<le> t" "t \<le> 1"
    "real_of_int (fst q) = real_of_int (fst a) + t * (real_of_int (fst b) - real_of_int (fst a))"
    "real_of_int (snd q) = real_of_int (snd a) + t * (real_of_int (snd b) - real_of_int (snd a))"
    unfolding on_segment_def by auto
  then show ?r
    unfolding turn_zero_real box_real by (rule param_collinear_box)
next
  assume ?r
  then have
    "(real_of_int (fst b) - real_of_int (fst a)) * (real_of_int (snd q) - real_of_int (snd a))
       - (real_of_int (snd b) - real_of_int (snd a)) * (real_of_int (fst q) - real_of_int (fst a)) = 0"
    "min (real_of_int (fst a)) (real_of_int (fst b)) \<le> real_of_int (fst q)"
    "real_of_int (fst q) \<le> max (real_of_int (fst a)) (real_of_int (fst b))"
    "min (real_of_int (snd a)) (real_of_int (snd b)) \<le> real_of_int (snd q)"
    "real_of_int (snd q) \<le> max (real_of_int (snd a)) (real_of_int (snd b))"
    unfolding turn_zero_real box_real by simp_all
  then have "\<exists>t. 0 \<le> t \<and> t \<le> 1
      \<and> real_of_int (fst q) = real_of_int (fst a) + t * (real_of_int (fst b) - real_of_int (fst a))
      \<and> real_of_int (snd q) = real_of_int (snd a) + t * (real_of_int (snd b) - real_of_int (snd a))"
    by (rule collinear_box_param)
  then show ?l
    unfolding on_segment_def by simp
qed

lemma on_segment_start: "on_segment a b (real_of_int (fst a), real_of_int (snd a))"
  unfolding on_segment_def by (rule exI [of _ 0]) simp

lemma on_segment_end: "on_segment a b (real_of_int (fst b), real_of_int (snd b))"
  unfolding on_segment_def by (rule exI [of _ 1]) simp

lemma edges_intersect_meet:
  "edges_intersect p1 p2 p3 p4 \<longleftrightarrow> segments_meet p1 p2 p3 p4"
proof
  assume "edges_intersect p1 p2 p3 p4"
  then consider
      (cross) "opposite_signs (turn_sign p1 p2 p3) (turn_sign p1 p2 p4)"
              "opposite_signs (turn_sign p3 p4 p1) (turn_sign p3 p4 p2)"
    | (e3) "turn_sign p1 p2 p3 = 0" "in_bounding_box p3 p1 p2"
    | (e4) "turn_sign p1 p2 p4 = 0" "in_bounding_box p4 p1 p2"
    | (e1) "turn_sign p3 p4 p1 = 0" "in_bounding_box p1 p3 p4"
    | (e2) "turn_sign p3 p4 p2 = 0" "in_bounding_box p2 p3 p4"
    unfolding edges_intersect_def by blast
  then show "segments_meet p1 p2 p3 p4"
  proof cases
    case cross
    then show ?thesis
      unfolding opposite_real segments_meet_params
      by (rule proper_crossing_meets)
  next
    case e3
    then have "on_segment p1 p2 (real_of_int (fst p3), real_of_int (snd p3))"
      by (simp add: on_segment_lattice)
    then show ?thesis
      unfolding segments_meet_def using on_segment_start [of p3 p4] by blast
  next
    case e4
    then have "on_segment p1 p2 (real_of_int (fst p4), real_of_int (snd p4))"
      by (simp add: on_segment_lattice)
    then show ?thesis
      unfolding segments_meet_def using on_segment_end [of p3 p4] by blast
  next
    case e1
    then have "on_segment p3 p4 (real_of_int (fst p1), real_of_int (snd p1))"
      by (simp add: on_segment_lattice)
    then show ?thesis
      unfolding segments_meet_def using on_segment_start [of p1 p2] by blast
  next
    case e2
    then have "on_segment p3 p4 (real_of_int (fst p2), real_of_int (snd p2))"
      by (simp add: on_segment_lattice)
    then show ?thesis
      unfolding segments_meet_def using on_segment_end [of p1 p2] by blast
  qed
next
  assume "segments_meet p1 p2 p3 p4"
  then obtain t u where "0 \<le> t" "t \<le> 1" "0 \<le> u" "u \<le> 1"
    "real_of_int (fst p1) + t * (real_of_int (fst p2) - real_of_int (fst p1))
       = real_of_int (fst p3) + u * (real_of_int (fst p4) - real_of_int (fst p3))"
    "real_of_int (snd p1) + t * (real_of_int (snd p2) - real_of_int (snd p1))
       = real_of_int (snd p3) + u * (real_of_int (snd p4) - real_of_int (snd p3))"
    unfolding segments_meet_params by blast
  then show "edges_intersect p1 p2 p3 p4"
    unfolding edges_intersect_def opposite_real turn_zero_real box_real
    by (rule meet_implies_test)
qed

text \<open>
  C7: on a list of at least three vertices \<open>isSimplePolygon\<close> is true exactly when the
  vertices are pairwise distinct, the absolute signed area is at least one half and no
  two non-adjacent edges intersect, where two edges intersect exactly when the closed
  segments have a point in common. It is false on the bowtie and true on the square;
  it is also false on a quadrilateral of area 6 whose first and third edges cross, and
  on three collinear points.
\<close>

theorem isSimplePolygon_iff_spec:
  "(3 \<le> length vs \<longrightarrow> (isSimplePolygon (Some vs) \<longleftrightarrow> simple_spec vs))
   \<and> \<not> isSimplePolygon (Some [(0, 0), (2, 2), (2, 0), (0, 2)])
   \<and> isSimplePolygon (Some [(0, 0), (2, 0), (2, 2), (0, 2)])
   \<and> \<not> isSimplePolygon (Some [(0, 0), (4, 4), (4, 0), (0, 1)])
   \<and> \<not> isSimplePolygon (Some [(0, 0), (1, 1), (2, 2)])
   \<and> (edges_intersect p1 p2 p3 p4 \<longleftrightarrow> segments_meet p1 p2 p3 p4)"
proof (intro conjI impI)
  assume three: "3 \<le> length vs"
  then have "isSimplePolygon (Some vs) \<longleftrightarrow>
      (card (set vs) = length vs \<and> \<not> \<bar>polygonAreaValue (Some vs)\<bar> < 1 / 2
       \<and> \<not> list_ex (\<lambda>i. list_ex (\<lambda>j. \<not> edge_pair_skipped (length vs) i j \<and> edges_cross vs i j)
                               [i + 1..<length vs])
                   [0..<length vs])"
    by (simp add: isSimplePolygon_def)
  also have "\<dots> \<longleftrightarrow>
      (distinct vs \<and> 1 / 2 \<le> \<bar>signed_area vs\<bar>
       \<and> (\<forall>i<length vs. \<forall>j<length vs.
             non_adjacent (length vs) i j \<longrightarrow> \<not> edges_cross vs i j))"
    unfolding no_crossing_iff polygonAreaValue_spec [OF three]
    using card_distinct [of vs] distinct_card [of vs] by (auto simp: not_less)
  also have "\<dots> \<longleftrightarrow> simple_spec vs"
    by (simp only: simple_spec_def edges_cross_spec)
  finally show "isSimplePolygon (Some vs) \<longleftrightarrow> simple_spec vs" .
next
  show "\<not> isSimplePolygon (Some [(0, 0), (2, 2), (2, 0), (0, 2)])"
    by code_simp
next
  show "isSimplePolygon (Some [(0, 0), (2, 0), (2, 2), (0, 2)])"
    by code_simp
next
  show "\<not> isSimplePolygon (Some [(0, 0), (4, 4), (4, 0), (0, 1)])"
    by code_simp
next
  show "\<not> isSimplePolygon (Some [(0, 0), (1, 1), (2, 2)])"
    by code_simp
next
  show "edges_intersect p1 p2 p3 p4 \<longleftrightarrow> segments_meet p1 p2 p3 p4"
    by (rule edges_intersect_meet)
qed

theorem isSimplePolygon_iff_spec_witness:
  "3 \<le> length [(0, 0), (2, 0), (2, 2), (0, 2) :: point]
   \<and> simple_spec [(0, 0), (2, 0), (2, 2), (0, 2)]
   \<and> 3 \<le> length [(0, 0), (2, 2), (2, 0), (0, 2) :: point]
   \<and> \<not> simple_spec [(0, 0), (2, 2), (2, 0), (0, 2)]
   \<and> 3 \<le> length [(0, 0), (4, 4), (4, 0), (0, 1) :: point]
   \<and> distinct [(0, 0), (4, 4), (4, 0), (0, 1) :: point]
   \<and> signed_area [(0, 0), (4, 4), (4, 0), (0, 1)] = - 6
   \<and> edges_intersect (0, 0) (4, 4) (4, 0) (0, 1)
   \<and> \<not> simple_spec [(0, 0), (4, 4), (4, 0), (0, 1)]
   \<and> 3 \<le> length [(0, 0), (1, 1), (2, 2) :: point]
   \<and> signed_area [(0, 0), (1, 1), (2, 2)] = 0
   \<and> \<not> simple_spec [(0, 0), (1, 1), (2, 2)]"
proof -
  have a: "signed_area [(0, 0), (4, 4), (4, 0), (0, 1)] = - 6"
    by (simp add: signed_area_def cross_product_def vector_from_def)
  have b: "signed_area [(0, 0), (1, 1), (2, 2)] = 0"
    by (simp add: signed_area_def cross_product_def vector_from_def)
  have c: "edges_intersect (0, 0) (4, 4) (4, 0) (0, 1)"
    by (simp add: edges_intersect_def turn_sign_def opposite_signs_def cross_product_def
                  vector_from_def)
  note iff = isSimplePolygon_iff_spec [THEN conjunct1]
  note examples = isSimplePolygon_iff_spec [of "[]" "(0, 0)" "(0, 0)" "(0, 0)" "(0, 0)",
                                            THEN conjunct2]
  have "simple_spec [(0, 0), (2, 0), (2, 2), (0, 2)]"
    using iff [of "[(0, 0), (2, 0), (2, 2), (0, 2)]"] examples by simp
  moreover have "\<not> simple_spec [(0, 0), (2, 2), (2, 0), (0, 2)]"
    using iff [of "[(0, 0), (2, 2), (2, 0), (0, 2)]"] examples by simp
  moreover have "\<not> simple_spec [(0, 0), (4, 4), (4, 0), (0, 1)]"
    using iff [of "[(0, 0), (4, 4), (4, 0), (0, 1)]"] examples by simp
  moreover have "\<not> simple_spec [(0, 0), (1, 1), (2, 2)]"
    using iff [of "[(0, 0), (1, 1), (2, 2)]"] examples by simp
  ultimately show ?thesis
    using a b c by simp
qed

section \<open>Boundary lattice points\<close>

lemma gcd_loop_eq: "0 \<le> a \<Longrightarrow> 0 \<le> b \<Longrightarrow> gcd_loop a b = gcd a b"
proof (induction a b rule: gcd_loop.induct)
  case (1 a b)
  show ?case
  proof (cases "b = 0")
    case True
    then have "gcd_loop a b = a"
      by (subst gcd_loop.simps) simp
    with True "1.prems" show ?thesis by simp
  next
    case False
    with "1.prems" have b: "0 < b" by simp
    then have "gcd_loop a b = gcd_loop b (a mod b)"
      using "1.prems" by (subst gcd_loop.simps) simp
    also have "\<dots> = gcd b (a mod b)"
      using "1.IH" "1.prems" b by simp
    also have "\<dots> = gcd a b"
      by (simp add: gcd_red_int [of a b])
    finally show ?thesis .
  qed
qed

lemma gcd_js_eq: "gcd_js a b = gcd a b"
  by (simp add: gcd_js_def gcd_loop_eq)

lemma edge_samples_eq:
  "edge_samples s e =
     (if s = e then [s]
      else map (\<lambda>j. (fst s + (fst e - fst s) div gcd (fst e - fst s) (snd e - snd s) * j,
                      snd s + (snd e - snd s) div gcd (fst e - fst s) (snd e - snd s) * j))
               [0..gcd (fst e - fst s) (snd e - snd s)])"
  by (auto simp: edge_samples_def gcd_js_eq Let_def prod_eq_iff)

lemma length_edge_samples:
  "length (edge_samples s e) = nat (gcd (fst e - fst s) (snd e - snd s)) + 1"
  by (auto simp: edge_samples_eq nat_add_distrib prod_eq_iff)

lemma on_edge_degenerate: "isPointOnEdge q s s \<longleftrightarrow> q = s"
  by (cases q; cases s) auto

lemma scaled_between:
  fixes a j g :: int
  assumes "0 \<le> j" "j \<le> g"
  shows "min 0 (a * g) \<le> a * j \<and> a * j \<le> max 0 (a * g)"
proof (cases "0 \<le> a")
  case True
  with assms have "0 \<le> a * j" "a * j \<le> a * g"
    by (simp_all add: mult_left_mono)
  then show ?thesis by simp
next
  case False
  with assms have "a * j \<le> 0" "a * g \<le> a * j"
    by (simp_all add: mult_le_0_iff mult_left_mono_neg)
  then show ?thesis by simp
qed

lemma scaled_between_conv:
  fixes a j g :: int
  assumes "a \<noteq> 0" "0 \<le> g" "min 0 (a * g) \<le> a * j" "a * j \<le> max 0 (a * g)"
  shows "0 \<le> j \<and> j \<le> g"
proof (cases "0 < a")
  case True
  with assms have "0 \<le> a * g" by simp
  with assms have "0 \<le> a * j" "a * j \<le> a * g" by simp_all
  with True show ?thesis
    by (simp add: zero_le_mult_iff)
next
  case False
  with assms have neg: "a < 0" by simp
  with assms have "a * g \<le> 0" by (simp add: mult_le_0_iff)
  with assms have "a * g \<le> a * j" "a * j \<le> 0" by simp_all
  with neg show ?thesis
    by (simp add: mult_le_0_iff)
qed

lemma on_edge_iff_multiple:
  fixes sx sy a b g :: int
  assumes g: "0 < g" and cop: "coprime a b"
  shows "isPointOnEdge (qx, qy) (sx, sy) (sx + a * g, sy + b * g)
           \<longleftrightarrow> (\<exists>j. 0 \<le> j \<and> j \<le> g \<and> qx = sx + a * j \<and> qy = sy + b * j)"
proof
  assume "\<exists>j. 0 \<le> j \<and> j \<le> g \<and> qx = sx + a * j \<and> qy = sy + b * j"
  then obtain j where j: "0 \<le> j" "j \<le> g" and q: "qx = sx + a * j" "qy = sy + b * j"
    by blast
  have "(qx - sx) * (b * g) - (qy - sy) * (a * g) = 0"
    using q by (simp add: algebra_simps)
  moreover have "min 0 (a * g) \<le> a * j \<and> a * j \<le> max 0 (a * g)"
    using j by (rule scaled_between)
  moreover have "min 0 (b * g) \<le> b * j \<and> b * j \<le> max 0 (b * g)"
    using j by (rule scaled_between)
  ultimately show "isPointOnEdge (qx, qy) (sx, sy) (sx + a * g, sy + b * g)"
    using q by (simp add: min_def max_def split: if_splits)
next
  assume on: "isPointOnEdge (qx, qy) (sx, sy) (sx + a * g, sy + b * g)"
  define X where "X = qx - sx"
  define Y where "Y = qy - sy"
  from on have cross: "X * (b * g) = Y * (a * g)"
    and bx: "min 0 (a * g) \<le> X" "X \<le> max 0 (a * g)"
    and ybox: "min 0 (b * g) \<le> Y" "Y \<le> max 0 (b * g)"
    by (auto simp: X_def Y_def Let_def min_def max_def split: if_splits)
  from cross g have ratio: "X * b = Y * a"
    by (simp add: mult.assoc [symmetric])
  from cop obtain u v where uv: "u * a + v * b = 1"
    using bezout_int [of a b] by auto
  define j where "j = u * X + v * Y"
  have "a * j = u * a * X + v * (Y * a)"
    by (simp add: j_def algebra_simps)
  also have "\<dots> = (u * a + v * b) * X"
    by (simp add: ratio [symmetric] algebra_simps)
  finally have aj: "a * j = X" by (simp add: uv)
  have "b * j = u * (X * b) + v * b * Y"
    by (simp add: j_def algebra_simps)
  also have "\<dots> = (u * a + v * b) * Y"
    by (simp add: ratio algebra_simps)
  finally have bj: "b * j = Y" by (simp add: uv)
  have "a \<noteq> 0 \<or> b \<noteq> 0"
    using cop by auto
  then have "0 \<le> j \<and> j \<le> g"
  proof
    assume "a \<noteq> 0"
    then show ?thesis
      using g bx aj by (intro scaled_between_conv [of a g j]) simp_all
  next
    assume "b \<noteq> 0"
    then show ?thesis
      using g ybox bj by (intro scaled_between_conv [of b g j]) simp_all
  qed
  with aj bj show "\<exists>j. 0 \<le> j \<and> j \<le> g \<and> qx = sx + a * j \<and> qy = sy + b * j"
    by (auto simp: X_def Y_def)
qed

lemma set_edge_samples: "set (edge_samples s e) = {q. isPointOnEdge q s e}"
proof (cases "s = e")
  case True
  then show ?thesis
    by (auto simp: edge_samples_eq on_edge_degenerate)
next
  case False
  obtain sx sy where s: "s = (sx, sy)" by (cases s)
  obtain ex ey where e: "e = (ex, ey)" by (cases e)
  define g where "g = gcd (ex - sx) (ey - sy)"
  define a where "a = (ex - sx) div g"
  define b where "b = (ey - sy) div g"
  from False s e have nz: "ex - sx \<noteq> 0 \<or> ey - sy \<noteq> 0" by auto
  then have g: "0 < g"
    unfolding g_def by (auto simp: gcd_pos_int)
  have cop: "coprime a b"
    unfolding a_def b_def g_def using nz by (rule div_gcd_coprime)
  have ex: "ex = sx + a * g" and ey: "ey = sy + b * g"
    unfolding a_def b_def g_def by simp_all
  have samples: "edge_samples s e = map (\<lambda>j. (sx + a * j, sy + b * j)) [0..g]"
    using False by (simp add: edge_samples_eq s e a_def b_def g_def)
  show ?thesis
  proof (rule set_eqI)
    fix q :: point
    obtain qx qy where q: "q = (qx, qy)" by (cases q)
    have "q \<in> set (edge_samples s e)
            \<longleftrightarrow> (\<exists>j. 0 \<le> j \<and> j \<le> g \<and> qx = sx + a * j \<and> qy = sy + b * j)"
      by (auto simp: samples q)
    also have "\<dots> \<longleftrightarrow> isPointOnEdge (qx, qy) (sx, sy) (sx + a * g, sy + b * g)"
      using g cop by (rule on_edge_iff_multiple [symmetric])
    finally show "q \<in> set (edge_samples s e) \<longleftrightarrow> q \<in> {q. isPointOnEdge q s e}"
      by (simp add: q s e ex [symmetric] ey [symmetric])
  qed
qed

lemma set_fold_add_key: "set (foldl add_key acc xs) = set acc \<union> set xs"
  by (induction xs arbitrary: acc) (auto simp: add_key_def)

lemma distinct_fold_add_key: "distinct acc \<Longrightarrow> distinct (foldl add_key acc xs)"
  by (induction xs arbitrary: acc) (auto simp: add_key_def)

lemma set_fold_edges:
  "set (foldl (\<lambda>boundary i. foldl add_key boundary (f i)) acc is)
     = set acc \<union> (\<Union>i\<in>set is. set (f i))"
  by (induction "is" arbitrary: acc) (auto simp: set_fold_add_key)

lemma distinct_fold_edges:
  "distinct acc \<Longrightarrow> distinct (foldl (\<lambda>boundary i. foldl add_key boundary (f i)) acc is)"
  by (induction "is" arbitrary: acc) (auto simp: distinct_fold_add_key)

lemma set_boundary_keys:
  "set (boundary_keys vs)
     = (\<Union>i<length vs. set (edge_samples (vs ! i) (vs ! ((i + 1) mod length vs))))"
  by (simp add: boundary_keys_def set_fold_edges atLeast0LessThan)

lemma distinct_boundary_keys: "distinct (boundary_keys vs)"
  by (simp add: boundary_keys_def distinct_fold_edges)

lemma compare_le_iff:
  "compare_entries a b \<le> 0 \<longleftrightarrow> entry_before a b \<or> a = b"
  by (auto simp: compare_entries_def entry_before_def prod_eq_iff)

lemma entry_before_trans: "entry_before a b \<Longrightarrow> entry_before b c \<Longrightarrow> entry_before a c"
  by (auto simp: entry_before_def)

lemma entry_before_total: "a \<noteq> b \<Longrightarrow> \<not> entry_before a b \<Longrightarrow> entry_before b a"
  by (auto simp: entry_before_def prod_eq_iff)

lemma set_insert_entry: "set (insert_entry a bs) = insert a (set bs)"
  by (induction bs) auto

lemma sorted_insert_entry:
  "a \<notin> set bs \<Longrightarrow> sorted_wrt entry_before bs \<Longrightarrow> sorted_wrt entry_before (insert_entry a bs)"
proof (induction bs)
  case Nil
  show ?case by simp
next
  case (Cons b bs)
  show ?case
  proof (cases "compare_entries a b \<le> 0")
    case True
    with Cons.prems have ab: "entry_before a b"
      by (auto simp: compare_le_iff)
    with Cons.prems have "\<forall>c\<in>set bs. entry_before a c"
      by (auto intro: entry_before_trans)
    with True ab Cons.prems show ?thesis by simp
  next
    case False
    with Cons.prems have "entry_before b a"
      by (auto simp: compare_le_iff intro: entry_before_total)
    with False Cons show ?thesis
      by (auto simp: set_insert_entry)
  qed
qed

lemma set_sort_entries: "set (sort_entries xs) = set xs"
  by (induction xs) (auto simp: sort_entries_def set_insert_entry)

lemma sorted_sort_entries: "distinct xs \<Longrightarrow> sorted_wrt entry_before (sort_entries xs)"
proof (induction xs)
  case Nil
  show ?case by (simp add: sort_entries_def)
next
  case (Cons x xs)
  then have "sorted_wrt entry_before (sort_entries xs)" "x \<notin> set (sort_entries xs)"
    by (simp_all add: set_sort_entries)
  then have "sorted_wrt entry_before (insert_entry x (sort_entries xs))"
    by (simp add: sorted_insert_entry)
  then show ?case by (simp add: sort_entries_def)
qed

lemma entry_before_irrefl: "\<not> entry_before a a"
  by (simp add: entry_before_def)

lemma sorted_entries_distinct: "sorted_wrt entry_before xs \<Longrightarrow> distinct xs"
  by (induction xs) (auto simp: entry_before_irrefl)

text \<open>
  C9: the result of \<open>collectBoundaryPoints\<close> is strictly ascending by \<open>x\<close> then \<open>y\<close> (so
  it has no duplicates) and holds exactly the integer points that lie on some edge of
  the vertex list. An edge from \<open>s\<close> to \<open>e\<close> with \<open>s \<noteq> e\<close> is sampled at the
  \<open>gcd + 1\<close> points \<open>s + j \<cdot> (\<Delta>x / gcd, \<Delta>y / gcd)\<close> for \<open>j\<close> from 0 to the gcd of
  \<open>|\<Delta>x|\<close> and \<open>|\<Delta>y|\<close>, which are the integer points on it; an edge with \<open>s = e\<close>
  gives the single point \<open>s\<close>. On \<open>[(0,0), (3,0)]\<close> and \<open>[(0,0), (2,2)]\<close> the results
  are the four and the three points of the segment.
\<close>

theorem collectBoundaryPoints_spec:
  "sorted_wrt entry_before (collectBoundaryPoints vs)
   \<and> distinct (collectBoundaryPoints vs)
   \<and> set (collectBoundaryPoints vs)
       = (\<Union>i<length vs. set (edge_samples (vs ! i) (vs ! ((i + 1) mod length vs))))
   \<and> set (collectBoundaryPoints vs)
       = {q. \<exists>i<length vs. isPointOnEdge q (vs ! i) (vs ! ((i + 1) mod length vs))}
   \<and> edge_samples s e =
       (if s = e then [s]
        else map (\<lambda>j. (fst s + (fst e - fst s) div gcd \<bar>fst e - fst s\<bar> \<bar>snd e - snd s\<bar> * j,
                        snd s + (snd e - snd s) div gcd \<bar>fst e - fst s\<bar> \<bar>snd e - snd s\<bar> * j))
                 [0..gcd \<bar>fst e - fst s\<bar> \<bar>snd e - snd s\<bar>])
   \<and> length (edge_samples s e) = nat (gcd \<bar>fst e - fst s\<bar> \<bar>snd e - snd s\<bar>) + 1
   \<and> distinct (edge_samples s e)
   \<and> collectBoundaryPoints [(0, 0), (3, 0)] = [(0, 0), (1, 0), (2, 0), (3, 0)]
   \<and> collectBoundaryPoints [(0, 0), (2, 2)] = [(0, 0), (1, 1), (2, 2)]"
proof -
  have sorted: "sorted_wrt entry_before (collectBoundaryPoints vs)"
    by (simp add: collectBoundaryPoints_def sorted_sort_entries distinct_boundary_keys)
  then have dist: "distinct (collectBoundaryPoints vs)"
    by (rule sorted_entries_distinct)
  have set1: "set (collectBoundaryPoints vs)
       = (\<Union>i<length vs. set (edge_samples (vs ! i) (vs ! ((i + 1) mod length vs))))"
    by (simp add: collectBoundaryPoints_def set_sort_entries set_boundary_keys)
  have set2: "set (collectBoundaryPoints vs)
       = {q. \<exists>i<length vs. isPointOnEdge q (vs ! i) (vs ! ((i + 1) mod length vs))}"
    unfolding set1 set_edge_samples by auto
  have samples: "edge_samples s e =
       (if s = e then [s]
        else map (\<lambda>j. (fst s + (fst e - fst s) div gcd \<bar>fst e - fst s\<bar> \<bar>snd e - snd s\<bar> * j,
                        snd s + (snd e - snd s) div gcd \<bar>fst e - fst s\<bar> \<bar>snd e - snd s\<bar> * j))
                 [0..gcd \<bar>fst e - fst s\<bar> \<bar>snd e - snd s\<bar>])"
    by (simp add: edge_samples_eq)
  have len: "length (edge_samples s e) = nat (gcd \<bar>fst e - fst s\<bar> \<bar>snd e - snd s\<bar>) + 1"
    by (simp add: length_edge_samples)
  have dsam: "distinct (edge_samples s e)"
  proof (cases "s = e")
    case True
    then show ?thesis by (simp add: edge_samples_eq)
  next
    case False
    define g where "g = gcd (fst e - fst s) (snd e - snd s)"
    from False have nz: "fst e - fst s \<noteq> 0 \<or> snd e - snd s \<noteq> 0"
      by (auto simp: prod_eq_iff)
    then have g: "0 < g" unfolding g_def by (auto simp: gcd_pos_int)
    have "(fst e - fst s) div g \<noteq> 0 \<or> (snd e - snd s) div g \<noteq> 0"
    proof (rule ccontr)
      assume "\<not> ((fst e - fst s) div g \<noteq> 0 \<or> (snd e - snd s) div g \<noteq> 0)"
      then have "(fst e - fst s) div g * g = 0" "(snd e - snd s) div g * g = 0"
        by simp_all
      then have "fst e - fst s = 0" "snd e - snd s = 0"
        unfolding g_def by simp_all
      with nz show False by simp
    qed
    then have "inj_on (\<lambda>j. (fst s + (fst e - fst s) div g * j, snd s + (snd e - snd s) div g * j))
                 (set [0..g])"
      by (auto simp: inj_on_def)
    then show ?thesis
      using False by (simp add: edge_samples_eq distinct_map g_def)
  qed
  have ex1: "collectBoundaryPoints [(0, 0), (3, 0)] = [(0, 0), (1, 0), (2, 0), (3, 0)]"
    by code_simp
  have ex2: "collectBoundaryPoints [(0, 0), (2, 2)] = [(0, 0), (1, 1), (2, 2)]"
    by code_simp
  from sorted dist set1 set2 samples len dsam ex1 ex2 show ?thesis
    by blast
qed


end
